theory Spec2Isabelle
  imports Main
begin

section \<open>Text and character classes\<close>

text \<open>
  A Python \<open>str\<close> is modelled as a \<open>string\<close>; a \<open>char\<close> stands for the code point
  of the same number, so the model covers text whose code points are below 256.
  The three classes below are those of \<open>str.isspace\<close> (also the \<open>\s\<close> of \<open>re\<close>),
  of \<open>\w\<close> (alphanumeric or underscore) and of \<open>\d\<close> on that range.
\<close>

definition code :: "char \<Rightarrow> nat" where
  "code c = of_char c"

definition newline :: char where
  "newline = CHR 0x0A"

definition isspace :: "char \<Rightarrow> bool" where
  "isspace c = (let n = code c in (9 \<le> n \<and> n \<le> 13) \<or> (28 \<le> n \<and> n \<le> 32) \<or> n = 133 \<or> n = 160)"

definition isword :: "char \<Rightarrow> bool" where
  "isword c = (let n = code c in
     (48 \<le> n \<and> n \<le> 57) \<or> (65 \<le> n \<and> n \<le> 90) \<or> n = 95 \<or> (97 \<le> n \<and> n \<le> 122) \<or>
     n = 170 \<or> n = 178 \<or> n = 179 \<or> n = 181 \<or> n = 185 \<or> n = 186 \<or> (188 \<le> n \<and> n \<le> 190) \<or>
     (192 \<le> n \<and> n \<le> 214) \<or> (216 \<le> n \<and> n \<le> 246) \<or> (248 \<le> n \<and> n \<le> 255))"

definition isdigit :: "char \<Rightarrow> bool" where
  "isdigit c = (let n = code c in 48 \<le> n \<and> n \<le> 57)"

text \<open>Lower-casing of the ASCII letters, which is all that \<open>re.IGNORECASE\<close> does to the
  ASCII literals of the rule catalog on this range of code points.\<close>

definition ascii_lower :: "char \<Rightarrow> char" where
  "ascii_lower c = (let n = code c in if 65 \<le> n \<and> n \<le> 90 then char_of (n + 32) else c)"

section \<open>Regular expressions with backtracking\<close>

text \<open>
  The part of Python's \<open>re\<close> syntax that the two scripts use. \<open>Lit\<close> is a literal compared
  exactly, \<open>LitI\<close> a literal under \<open>re.IGNORECASE\<close>; \<open>AnyChar\<close> is \<open>.\<close> under \<open>re.DOTALL\<close>,
  \<open>Dot\<close> is \<open>.\<close> without it; \<open>NoneOf cs\<close> is \<open>[^cs]\<close>.
\<close>

datatype atom = Lit char | LitI char | AnyChar | Dot | Space | WordCh | Digit | NoneOf "char list"

fun atom_ok :: "atom \<Rightarrow> char \<Rightarrow> bool" where
  "atom_ok (Lit c) x = (x = c)"
| "atom_ok (LitI c) x = (ascii_lower x = ascii_lower c)"
| "atom_ok AnyChar x = True"
| "atom_ok Dot x = (x \<noteq> newline)"
| "atom_ok Space x = isspace x"
| "atom_ok WordCh x = isword x"
| "atom_ok Digit x = isdigit x"
| "atom_ok (NoneOf cs) x = (x \<notin> set cs)"

text \<open>
  \<open>WordB\<close> is \<open>\b\<close>; \<open>Look True r\<close> is \<open>(?=r)\<close> and \<open>Look False r\<close> is \<open>(?!r)\<close>;
  \<open>Dollar\<close> is \<open>$\<close> without \<open>re.MULTILINE\<close>. Quantifiers are the greedy ones.
\<close>

datatype regex =
    Atom atom
  | Eps
  | Seq regex regex
  | Alt regex regex
  | Opt regex
  | Star regex
  | WordB
  | Look bool regex
  | Dollar

definition Plus :: "regex \<Rightarrow> regex" where
  "Plus r = Seq r (Star r)"

fun seqs :: "regex list \<Rightarrow> regex" where
  "seqs [] = Eps"
| "seqs [r] = r"
| "seqs (r # rs) = Seq r (seqs rs)"

definition word :: "string \<Rightarrow> regex" where
  "word cs = seqs (map (\<lambda>c. Atom (LitI c)) cs)"

definition word_exact :: "string \<Rightarrow> regex" where
  "word_exact cs = seqs (map (\<lambda>c. Atom (Lit c)) cs)"

text \<open>\<open>\b\<close>: exactly one of the characters before and after the position is a word
  character, the ends of the text counting as non-word.\<close>

definition word_before :: "string \<Rightarrow> nat \<Rightarrow> bool" where
  "word_before s i = (0 < i \<and> i \<le> length s \<and> isword (s ! (i - 1)))"

definition word_after :: "string \<Rightarrow> nat \<Rightarrow> bool" where
  "word_after s i = (i < length s \<and> isword (s ! i))"

definition at_boundary :: "string \<Rightarrow> nat \<Rightarrow> bool" where
  "at_boundary s i = (word_before s i \<noteq> word_after s i)"

definition at_dollar :: "string \<Rightarrow> nat \<Rightarrow> bool" where
  "at_dollar s i = (i = length s \<or> (Suc i = length s \<and> s ! i = newline))"

text \<open>
  \<open>ends r s i\<close> lists the positions at which a match of \<open>r\<close> that starts at position \<open>i\<close>
  of \<open>s\<close> can end, in the order in which the backtracking matcher tries them: the head
  of the list is where the match ends. A repetition stops at an iteration that consumes
  nothing.
\<close>

function ends :: "regex \<Rightarrow> string \<Rightarrow> nat \<Rightarrow> nat list" where
  "ends (Atom a) s i = (if i < length s \<and> atom_ok a (s ! i) then [Suc i] else [])"
| "ends Eps s i = [i]"
| "ends (Seq r1 r2) s i = concat (map (\<lambda>j. ends r2 s j) (ends r1 s i))"
| "ends (Alt r1 r2) s i = ends r1 s i @ ends r2 s i"
| "ends (Opt r) s i = ends r s i @ [i]"
| "ends (Star r) s i =
     concat (map (\<lambda>j. if i < j \<and> j \<le> length s then ends (Star r) s j else []) (ends r s i)) @ [i]"
| "ends WordB s i = (if at_boundary s i then [i] else [])"
| "ends (Look pos r) s i = (if (ends r s i \<noteq> []) = pos then [i] else [])"
| "ends Dollar s i = (if at_dollar s i then [i] else [])"
  by pat_completeness auto
termination
  by (relation "measures [\<lambda>(r, s, i). size r, \<lambda>(r, s, i). length s - i]") auto


text \<open>The equation of the repetition unfolds itself, so it is used by hand.\<close>

declare ends.simps(6) [simp del]

lemma ends_ge: "j \<in> set (ends r s i) \<Longrightarrow> i \<le> j"
proof (induction r s i arbitrary: j rule: ends.induct)
  case (3 r1 r2 s i)
  then obtain k where "k \<in> set (ends r1 s i)" "j \<in> set (ends r2 s k)" by auto
  with 3 have "i \<le> k" "k \<le> j" by blast+
  then show ?case by simp
next
  case (6 r s i)
  show ?case
  proof (cases "j = i")
    case False
    from 6(3) have "j \<in> set (concat (map (\<lambda>j. if i < j \<and> j \<le> length s
        then ends (Star r) s j else []) (ends r s i)) @ [i])"
      by (simp only: ends.simps(6) [of r s i])
    with False obtain k where k: "k \<in> set (ends r s i)" "i < k" "k \<le> length s"
        "j \<in> set (ends (Star r) s k)"
      by (auto split: if_splits)
    from k(2,3) have "i < k \<and> k \<le> length s" by simp
    from 6(2) [OF k(1) this k(4)] k(2) show ?thesis by simp
  qed simp
next
  case (1 a s i)
  then show ?case by (simp split: if_splits)
next
  case (4 r1 r2 s i)
  then show ?case by auto
next
  case (5 r s i)
  then show ?case by auto
next
  case (7 s i)
  then show ?case by (simp split: if_splits)
next
  case (8 pos r s i)
  then show ?case by (simp split: if_splits)
next
  case (9 s i)
  then show ?case by (simp split: if_splits)
qed simp

text \<open>
  \<open>re.finditer\<close>: the non-overlapping matches from left to right, each as
  \<open>(start, end)\<close>. The search resumes where the last match ended; after an empty match
  the next match at the same position must consume something (\<open>must_advance\<close>).
\<close>

definition match_at :: "regex \<Rightarrow> string \<Rightarrow> nat \<Rightarrow> bool \<Rightarrow> nat option" where
  "match_at r s i must_advance =
     (case filter (\<lambda>j. \<not> (must_advance \<and> j = i)) (ends r s i) of
        [] \<Rightarrow> None
      | e # _ \<Rightarrow> Some e)"

lemma match_at_ge: "match_at r s i adv = Some e \<Longrightarrow> i \<le> e \<and> (adv \<longrightarrow> i < e)"
proof -
  assume a: "match_at r s i adv = Some e"
  then obtain es where "filter (\<lambda>j. \<not> (adv \<and> j = i)) (ends r s i) = e # es"
    by (auto simp: match_at_def split: list.splits)
  then have "e \<in> set (filter (\<lambda>j. \<not> (adv \<and> j = i)) (ends r s i))"
    by (metis list.set_intros(1))
  then have "e \<in> set (ends r s i)" "\<not> (adv \<and> e = i)" by auto
  then show ?thesis using ends_ge [of e r s i] by auto
qed

function finditer_from :: "regex \<Rightarrow> string \<Rightarrow> nat \<Rightarrow> bool \<Rightarrow> (nat \<times> nat) list" where
  "finditer_from r s i must_advance =
     (if length s < i then []
      else case match_at r s i must_advance of
             None \<Rightarrow> finditer_from r s (Suc i) False
           | Some e \<Rightarrow> (i, e) # finditer_from r s e (e = i))"
  by pat_completeness auto
termination
proof (relation "measures [\<lambda>(r, s, i, adv). Suc (length s) - i, \<lambda>(r, s, i, adv). if adv then 0 else 1]")
  show "wf (measures [\<lambda>(r, s, i, adv). Suc (length s) - i, \<lambda>(r, s, i, adv). if adv then 0 else (1::nat)])"
    by simp
next
  fix r s i must_advance
  assume "\<not> length s < i" "match_at r s i must_advance = None"
  then show "((r, s, Suc i, False), r, s, i, must_advance)
      \<in> measures [\<lambda>(r, s, i, adv). Suc (length s) - i, \<lambda>(r, s, i, adv). if adv then 0 else 1]"
    by auto
next
  fix r s i must_advance e
  assume a: "\<not> length s < i" "match_at r s i must_advance = Some e"
  from match_at_ge [OF a(2)] a(1)
  show "((r, s, e, e = i), r, s, i, must_advance)
      \<in> measures [\<lambda>(r, s, i, adv). Suc (length s) - i, \<lambda>(r, s, i, adv). if adv then 0 else 1]"
    by auto
qed

definition finditer :: "regex \<Rightarrow> string \<Rightarrow> (nat \<times> nat) list" where
  "finditer r s = finditer_from r s 0 False"

text \<open>\<open>re.search\<close>: whether the pattern matches somewhere.\<close>

definition re_search :: "regex \<Rightarrow> string \<Rightarrow> bool" where
  "re_search r s = (finditer r s \<noteq> [])"

section \<open>Python string operations\<close>

text \<open>\<open>s.count('\n')\<close>.\<close>

definition count_nl :: "string \<Rightarrow> nat" where
  "count_nl s = length (filter (\<lambda>c. c = newline) s)"

text \<open>\<open>s.split('\n')\<close>: the pieces between newlines, always at least one piece.\<close>

fun split_nl :: "string \<Rightarrow> string list" where
  "split_nl [] = [[]]"
| "split_nl (c # cs) =
     (case split_nl cs of
        [] \<Rightarrow> [[c]]
      | l # ls \<Rightarrow> if c = newline then [] # l # ls else (c # l) # ls)"

text \<open>\<open>f.readlines()\<close>: the lines of the text, each with its terminating newline; a
  last line without one is kept as it is, and the empty text has no line.\<close>

fun readlines_acc :: "string \<Rightarrow> string \<Rightarrow> string list" where
  "readlines_acc cur [] = (if cur = [] then [] else [cur])"
| "readlines_acc cur (c # cs) =
     (if c = newline then (cur @ [c]) # readlines_acc [] cs
      else readlines_acc (cur @ [c]) cs)"

definition readlines :: "string \<Rightarrow> string list" where
  "readlines s = readlines_acc [] s"

text \<open>\<open>s.strip()\<close>.\<close>

definition strip :: "string \<Rightarrow> string" where
  "strip s = rev (dropWhile isspace (rev (dropWhile isspace s)))"

definition startswith :: "string \<Rightarrow> string \<Rightarrow> bool" where
  "startswith s pre = (take (length pre) s = pre)"

definition endswith :: "string \<Rightarrow> string \<Rightarrow> bool" where
  "endswith s suf = (length suf \<le> length s \<and> drop (length s - length suf) s = suf)"

text \<open>\<open>sub\<close> occurs in \<open>s\<close> at index \<open>k\<close>.\<close>

definition occurs_at :: "string \<Rightarrow> string \<Rightarrow> nat \<Rightarrow> bool" where
  "occurs_at sub s k = (k + length sub \<le> length s \<and> take (length sub) (drop k s) = sub)"

text \<open>\<open>sub in s\<close>.\<close>

definition py_in :: "string \<Rightarrow> string \<Rightarrow> bool" where
  "py_in sub s = list_ex (occurs_at sub s) [0 ..< Suc (length s)]"

text \<open>\<open>s.find(sub, start)\<close>: the lowest index from \<open>start\<close> on at which \<open>sub\<close> occurs, or
  \<open>-1\<close>. A negative \<open>start\<close> counts from the end of \<open>s\<close>.\<close>

definition py_find :: "string \<Rightarrow> string \<Rightarrow> int \<Rightarrow> int" where
  "py_find s sub start =
     (let n = int (length s);
          st = (if start < 0 then max 0 (start + n) else start)
      in case List.find (occurs_at sub s) [nat st ..< Suc (length s)] of
           None \<Rightarrow> - 1
         | Some k \<Rightarrow> int k)"

text \<open>\<open>s.rfind(sub, 0, e)\<close>: the highest index at which \<open>sub\<close> occurs within the first
  \<open>e\<close> characters, or \<open>-1\<close>.\<close>

definition py_rfind :: "string \<Rightarrow> string \<Rightarrow> nat \<Rightarrow> int" where
  "py_rfind s sub e =
     (let e' = min e (length s)
      in case List.find (\<lambda>k. k + length sub \<le> e' \<and> occurs_at sub s k) (rev [0 ..< Suc e']) of
           None \<Rightarrow> - 1
         | Some k \<Rightarrow> int k)"

text \<open>\<open>s[a:b]\<close>, negative bounds counting from the end.\<close>

definition py_norm :: "nat \<Rightarrow> int \<Rightarrow> nat" where
  "py_norm n i = (if i < 0 then nat (max 0 (i + int n)) else min (nat i) n)"

definition py_slice :: "string \<Rightarrow> int \<Rightarrow> int \<Rightarrow> string" where
  "py_slice s a b =
     (let a' = py_norm (length s) a; b' = py_norm (length s) b
      in take (b' - a') (drop a' s))"

text \<open>
  A file opened in text mode with the default \<open>newline\<close>: on reading, a carriage return
  followed by a newline, and a carriage return alone, become one newline; on writing,
  each newline becomes the line separator of the system.
\<close>

definition CR :: char where
  "CR = CHR 0x0D"

fun universal_newlines :: "string \<Rightarrow> string" where
  "universal_newlines [] = []"
| "universal_newlines [c] = (if c = CR then [newline] else [c])"
| "universal_newlines (c # d # ds) =
     (if c = CR \<and> d = newline then newline # universal_newlines ds
      else if c = CR then newline # universal_newlines (d # ds)
      else c # universal_newlines (d # ds))"

definition to_linesep :: "string \<Rightarrow> string \<Rightarrow> string" where
  "to_linesep sep text = concat (map (\<lambda>c. if c = newline then sep else [c]) text)"

section \<open>The rule catalog of \<open>sql_cost_optimizer.py\<close>\<close>

datatype severity = HIGH | MEDIUM | LOW

record rule =
  pattern :: regex
  rule_severity :: severity
  rule_description :: string
  cost_impact :: string
  fix_template :: string

fun alts :: "regex list \<Rightarrow> regex" where
  "alts [] = Look False Eps"
| "alts [r] = r"
| "alts (r # rs) = Alt r (alts rs)"

abbreviation sp :: regex where "sp \<equiv> Atom Space"
abbreviation any :: regex where "any \<equiv> Atom AnyChar"

text \<open>\<^verbatim>\<open>\bSELECT\s+\*\b\<close>\<close>
definition select_star :: regex where
  "select_star = seqs [WordB, word ''SELECT'', Plus sp, word ''*'', WordB]"

text \<open>\<^verbatim>\<open>\bFROM\s+(\w+\.)?(transactions|accounts|customers|orders|payments|audit_log|events)\b(?!.*\bWHERE\b)\<close>\<close>
definition missing_where_large_table :: regex where
  "missing_where_large_table = seqs [WordB, word ''FROM'', Plus sp,
     Opt (Seq (Plus (Atom WordCh)) (word ''.'')),
     alts [word ''transactions'', word ''accounts'', word ''customers'', word ''orders'',
           word ''payments'', word ''audit_log'', word ''events''],
     WordB,
     Look False (seqs [Star any, WordB, word ''WHERE'', WordB])]"

text \<open>\<^verbatim>\<open>\bSELECT\s+DISTINCT\b(?!.*\bGROUP\s+BY\b)\<close>\<close>
definition unnecessary_distinct :: regex where
  "unnecessary_distinct = seqs [WordB, word ''SELECT'', Plus sp, word ''DISTINCT'', WordB,
     Look False (seqs [Star any, WordB, word ''GROUP'', Plus sp, word ''BY'', WordB])]"

text \<open>\<^verbatim>\<open>\bORDER\s+BY\b(?!.*\bLIMIT\b)(?!.*\bTOP\b)\<close>\<close>
definition order_without_limit :: regex where
  "order_without_limit = seqs [WordB, word ''ORDER'', Plus sp, word ''BY'', WordB,
     Look False (seqs [Star any, WordB, word ''LIMIT'', WordB]),
     Look False (seqs [Star any, WordB, word ''TOP'', WordB])]"

text \<open>\<^verbatim>\<open>\bUNION\s+(?!ALL\b)\<close>\<close>
definition union_instead_union_all :: regex where
  "union_instead_union_all = seqs [WordB, word ''UNION'', Plus sp,
     Look False (seqs [word ''ALL'', WordB])]"

text \<open>\<^verbatim>\<open>\b(CREATE\s+(OR\s+REPLACE\s+)?TABLE|DROP\s+TABLE)\b\<close>\<close>
definition create_drop_table :: regex where
  "create_drop_table = seqs [WordB,
     Alt (seqs [word ''CREATE'', Plus sp,
                Opt (seqs [word ''OR'', Plus sp, word ''REPLACE'', Plus sp]), word ''TABLE''])
         (seqs [word ''DROP'', Plus sp, word ''TABLE'']),
     WordB]"

text \<open>\<^verbatim>\<open>\bCREATE\s+(OR\s+REPLACE\s+)?(FUNCTION|PROCEDURE)\b\<close>\<close>
definition create_function_procedure :: regex where
  "create_function_procedure = seqs [WordB, word ''CREATE'', Plus sp,
     Opt (seqs [word ''OR'', Plus sp, word ''REPLACE'', Plus sp]),
     Alt (word ''FUNCTION'') (word ''PROCEDURE''), WordB]"

text \<open>\<^verbatim>\<open>\bVARCHAR\s*(?!\s*\(\s*\d+\s*\))\<close>\<close>
definition varchar_without_size :: regex where
  "varchar_without_size = seqs [WordB, word ''VARCHAR'', Star sp,
     Look False (seqs [Star sp, word ''('', Star sp, Plus (Atom Digit), Star sp, word '')''])]"

text \<open>\<^verbatim>\<open>\(\s*SELECT.*\(\s*SELECT.*FROM.*\).*FROM.*\)\<close>\<close>
definition nested_subqueries :: regex where
  "nested_subqueries = seqs [word ''('', Star sp, word ''SELECT'', Star any,
     word ''('', Star sp, word ''SELECT'', Star any, word ''FROM'', Star any, word '')'',
     Star any, word ''FROM'', Star any, word '')'']"

text \<open>\<^verbatim>\<open>\b(DECLARE.*CURSOR|FOR.*CURSOR|OPEN\s+CURSOR|FETCH\s+FROM)\b\<close>\<close>
definition cursor_usage :: regex where
  "cursor_usage = seqs [WordB,
     alts [seqs [word ''DECLARE'', Star any, word ''CURSOR''],
           seqs [word ''FOR'', Star any, word ''CURSOR''],
           seqs [word ''OPEN'', Plus sp, word ''CURSOR''],
           seqs [word ''FETCH'', Plus sp, word ''FROM'']],
     WordB]"

text \<open>\<^verbatim>\<open>INSERT\s+INTO.*VALUES\s*\([^)]*\)\s*;.*INSERT\s+INTO\<close>\<close>
definition multiple_single_inserts :: regex where
  "multiple_single_inserts = seqs [word ''INSERT'', Plus sp, word ''INTO'', Star any,
     word ''VALUES'', Star sp, word ''('', Star (Atom (NoneOf '')'')), word '')'', Star sp,
     word '';'', Star any, word ''INSERT'', Plus sp, word ''INTO'']"

text \<open>\<open>_initialize_patterns\<close>: the dictionary, in its insertion order.\<close>

definition patterns :: "(string \<times> rule) list" where
  "patterns =
    [(''select_star'',
      \<lparr>pattern = select_star, rule_severity = HIGH,
       rule_description = ''SELECT * queries scan unnecessary columns'',
       cost_impact = ''300-500% increased I/O costs'',
       fix_template = ''-- SELECT * replaced with specific columns\<newline>SELECT \<newline>    column1,\<newline>    column2,\<newline>    column3\<newline>FROM {table}''\<rparr>),
     (''missing_where_large_table'',
      \<lparr>pattern = missing_where_large_table, rule_severity = HIGH,
       rule_description = ''Query on large table without WHERE clause'',
       cost_impact = ''Full table scan - extremely expensive'',
       fix_template = ''-- Add WHERE clause to filter data\<newline>-- WHERE created_date >= DATEADD(day, -30, CURRENT_DATE())''\<rparr>),
     (''unnecessary_distinct'',
      \<lparr>pattern = unnecessary_distinct, rule_severity = MEDIUM,
       rule_description = ''DISTINCT without GROUP BY causes expensive deduplication'',
       cost_impact = ''50-200% increased processing time'',
       fix_template = ''-- Consider using GROUP BY instead of DISTINCT for aggregations''\<rparr>),
     (''order_without_limit'',
      \<lparr>pattern = order_without_limit, rule_severity = MEDIUM,
       rule_description = ''ORDER BY without LIMIT sorts entire result set'',
       cost_impact = ''Unnecessary sorting of large datasets'',
       fix_template = ''-- Add LIMIT to ORDER BY\<newline>-- ORDER BY column_name LIMIT 1000''\<rparr>),
     (''union_instead_union_all'',
      \<lparr>pattern = union_instead_union_all, rule_severity = MEDIUM,
       rule_description = ''UNION performs unnecessary deduplication'',
       cost_impact = ''20-100% increased processing time'',
       fix_template = ''-- Use UNION ALL if duplicates are acceptable\<newline>UNION ALL''\<rparr>),
     (''create_drop_table'',
      \<lparr>pattern = create_drop_table, rule_severity = HIGH,
       rule_description = ''Creating/dropping tables in ETL causes metadata overhead'',
       cost_impact = ''Time Travel storage costs + performance degradation'',
       fix_template = ''-- Use permanent staging tables with TRUNCATE instead\<newline>-- TRUNCATE TABLE staging.temp_table;''\<rparr>),
     (''create_function_procedure'',
      \<lparr>pattern = create_function_procedure, rule_severity = HIGH,
       rule_description = ''Creating functions/procedures in ETL causes compilation overhead'',
       cost_impact = ''Metadata bloat + compilation time on every run'',
       fix_template = ''-- Deploy functions during release, not in ETL\<newline>-- Use inline SQL logic instead''\<rparr>),
     (''varchar_without_size'',
      \<lparr>pattern = varchar_without_size, rule_severity = LOW,
       rule_description = ''VARCHAR without size limit wastes storage'',
       cost_impact = ''Higher storage costs'',
       fix_template = ''-- Specify appropriate VARCHAR size\<newline>VARCHAR(100)  -- Adjust size as needed''\<rparr>),
     (''nested_subqueries'',
      \<lparr>pattern = nested_subqueries, rule_severity = MEDIUM,
       rule_description = ''Deeply nested subqueries hurt performance'',
       cost_impact = ''Poor query optimization'',
       fix_template = ''-- Use CTEs (WITH clauses) for better readability and performance\<newline>WITH subquery1 AS (\<newline>    SELECT ...\<newline>)''\<rparr>),
     (''cursor_usage'',
      \<lparr>pattern = cursor_usage, rule_severity = HIGH,
       rule_description = ''Cursor-based row-by-row processing is extremely inefficient'',
       cost_impact = ''Thousands of times slower than set-based operations'',
       fix_template = ''-- Use set-based operations instead\<newline>-- MERGE, INSERT, UPDATE with JOINs''\<rparr>),
     (''multiple_single_inserts'',
      \<lparr>pattern = multiple_single_inserts, rule_severity = MEDIUM,
       rule_description = ''Multiple single INSERT statements are inefficient'',
       cost_impact = ''Multiple small transactions vs efficient batching'',
       fix_template = ''-- Use bulk INSERT or multi-value INSERT\<newline>INSERT INTO table VALUES (val1), (val2), (val3);''\<rparr>)]"

section \<open>The scanner of \<open>sql_cost_optimizer.py\<close>\<close>

record SQLIssue =
  file_path :: string
  line_number :: int
  issue_type :: string
  severity :: severity
  description :: string
  original_line :: string
  suggested_fix :: "string option"
  estimated_cost_impact :: string

text \<open>The dictionary \<open>self.stats\<close>, one field for each of its five keys.\<close>

record stats =
  files_scanned :: int
  issues_found :: int
  high_severity :: int
  medium_severity :: int
  low_severity :: int

text \<open>
  What the program prints, one constructor for each \<open>print\<close> of the modelled methods:
  \<open>ErrorReading p e\<close> is \<^verbatim>\<open>Error reading {p}: {e}\<close>, \<open>FoundFiles n\<close> is
  \<^verbatim>\<open>Found {n} SQL files to scan...\<close>, \<open>ScanSummary\<close> the five lines of \<open>_generate_summary\<close>,
  \<open>NoIssuesToFix\<close> is \<^verbatim>\<open>No issues to fix!\<close>, \<open>WouldFix n p\<close> the dry-run line,
  \<open>Fixed n p b\<close> the two lines that report \<open>n\<close> fixes in \<open>p\<close> and the backup \<open>b\<close>, and
  \<open>ErrorWriting p e\<close> is \<^verbatim>\<open>Error writing fixes to {p}: {e}\<close>.
\<close>

datatype message =
    ErrorReading string string
  | FoundFiles nat
  | ScanSummary stats
  | NoIssuesToFix
  | WouldFix nat string
  | Fixed nat string string
  | ErrorWriting string string

text \<open>
  The file system as the program meets it: whether a path exists, the \<open>.sql\<close> files
  that \<open>rglob\<close> finds under a directory, the decoded text that a file holds (\<open>Inr\<close>) or
  the text of the exception that reading it raises (\<open>Inl\<close>), the text of the exception
  that opening a path for writing raises, if it does, and the line separator of the
  system (\<open>os.linesep\<close>).
\<close>

record world =
  path_exists :: "string \<Rightarrow> bool"
  rglob_sql :: "string \<Rightarrow> string list"
  files :: "string \<Rightarrow> string + string"
  write_error :: "string \<Rightarrow> string option"
  linesep :: string

text \<open>\<open>open(path, 'r').read()\<close> and \<open>open(path, 'w').write(text)\<close>.\<close>

definition read_text :: "world \<Rightarrow> string \<Rightarrow> string + string" where
  "read_text w path =
     (case files w path of Inl e \<Rightarrow> Inl e | Inr raw \<Rightarrow> Inr (universal_newlines raw))"

definition write_file :: "world \<Rightarrow> string \<Rightarrow> string \<Rightarrow> world" where
  "write_file w path text = w\<lparr>files := (files w)(path := Inr (to_linesep (linesep w) text))\<rparr>"

record SQLCostOptimizer =
  issues :: "SQLIssue list"
  stats :: stats
  console :: "message list"

text \<open>\<open>__init__\<close>.\<close>

definition init :: SQLCostOptimizer where
  "init = \<lparr>issues = [],
           stats = \<lparr>files_scanned = 0, issues_found = 0, high_severity = 0,
                    medium_severity = 0, low_severity = 0\<rparr>,
           console = []\<rparr>"

text \<open>\<open>_is_in_comment\<close>.\<close>

definition is_in_comment :: "string \<Rightarrow> nat \<Rightarrow> bool" where
  "is_in_comment content position =
     (let line_start = py_rfind content [newline] position + 1;
          line_content = py_slice content line_start (py_find content [newline] (int position))
      in if py_in ''--'' line_content \<and> py_find line_content ''--'' 0 < int position - line_start
         then True
         else let comment_start = py_rfind content ''/*'' position;
                  comment_end = py_find content ''*/'' comment_start
              in comment_start \<noteq> - 1 \<and> (comment_end = - 1 \<or> comment_end > int position))"

text \<open>The counter \<^verbatim>\<open>stats[f"{severity.lower()}_severity"] += 1\<close>.\<close>

fun bump :: "severity \<Rightarrow> stats \<Rightarrow> stats" where
  "bump HIGH st = st\<lparr>high_severity := high_severity st + 1\<rparr>"
| "bump MEDIUM st = st\<lparr>medium_severity := medium_severity st + 1\<rparr>"
| "bump LOW st = st\<lparr>low_severity := low_severity st + 1\<rparr>"

text \<open>The line number and the line text that the scan computes for a match that starts at
  \<open>start\<close>.\<close>

definition line_num_of :: "string \<Rightarrow> nat \<Rightarrow> int" where
  "line_num_of content start = int (count_nl (take start content)) + 1"

definition line_content_of :: "string \<Rightarrow> nat \<Rightarrow> string" where
  "line_content_of content start =
     (let lines = split_nl content; line_num = line_num_of content start
      in if line_num \<le> int (length lines) then strip (lines ! nat (line_num - 1)) else [])"

definition make_issue :: "string \<Rightarrow> string \<Rightarrow> string \<times> rule \<Rightarrow> nat \<Rightarrow> SQLIssue" where
  "make_issue path content pr start =
     \<lparr>file_path = path,
      line_number = line_num_of content start,
      issue_type = fst pr,
      severity = rule_severity (snd pr),
      description = rule_description (snd pr),
      original_line = line_content_of content start,
      suggested_fix = Some (fix_template (snd pr)),
      estimated_cost_impact = cost_impact (snd pr)\<rparr>"

text \<open>The body of the inner loop of \<open>_scan_sql_file\<close>, for one match.\<close>

definition scan_match :: "string \<Rightarrow> string \<Rightarrow> string \<times> rule \<Rightarrow> nat \<times> nat \<Rightarrow> SQLCostOptimizer \<Rightarrow> SQLCostOptimizer" where
  "scan_match path content pr m st =
     (if is_in_comment content (fst m) then st
      else st\<lparr>issues := issues st @ [make_issue path content pr (fst m)],
              stats := bump (rule_severity (snd pr))
                         ((stats st)\<lparr>issues_found := issues_found (stats st) + 1\<rparr>)\<rparr>)"

definition scan_pattern :: "string \<Rightarrow> string \<Rightarrow> string \<times> rule \<Rightarrow> SQLCostOptimizer \<Rightarrow> SQLCostOptimizer" where
  "scan_pattern path content pr st =
     fold (scan_match path content pr) (finditer (pattern (snd pr)) content) st"

text \<open>\<open>_scan_sql_file\<close>.\<close>

definition scan_sql_file :: "world \<Rightarrow> string \<Rightarrow> SQLCostOptimizer \<Rightarrow> SQLCostOptimizer" where
  "scan_sql_file w path st =
     (let st1 = st\<lparr>stats := (stats st)\<lparr>files_scanned := files_scanned (stats st) + 1\<rparr>\<rparr>
      in case read_text w path of
           Inl e \<Rightarrow> st1\<lparr>console := console st1 @ [ErrorReading path e]\<rparr>
         | Inr content \<Rightarrow> fold (scan_pattern path content) patterns st1)"

datatype py_error = FileNotFoundError string | IndexError

text \<open>\<open>scan_directory\<close>.\<close>

definition scan_directory :: "world \<Rightarrow> string \<Rightarrow> SQLCostOptimizer \<Rightarrow> py_error + SQLCostOptimizer" where
  "scan_directory w etl_path st =
     (if \<not> path_exists w etl_path then Inl (FileNotFoundError etl_path)
      else let sql_files = rglob_sql w etl_path;
               st1 = st\<lparr>console := console st @ [FoundFiles (length sql_files)]\<rparr>;
               st2 = fold (scan_sql_file w) sql_files st1
           in Inr (st2\<lparr>console := console st2 @ [ScanSummary (stats st2)]\<rparr>))"

section \<open>The fixer of \<open>sql_cost_optimizer.py\<close>\<close>

text \<open>The position that \<open>xs[i]\<close> designates: a negative index counts from the end, and
  an index out of range raises.\<close>

definition py_index :: "'a list \<Rightarrow> int \<Rightarrow> py_error + nat" where
  "py_index xs i =
     (let n = int (length xs); j = (if i < 0 then i + n else i)
      in if 0 \<le> j \<and> j < n then Inr (nat j) else Inl IndexError)"

definition fix_comment :: "SQLIssue \<Rightarrow> string" where
  "fix_comment issue =
     ''-- COST OPTIMIZATION FIX: '' @ description issue @ [newline] @
     ''-- Original line commented below, optimized version added'' @ [newline] @
     ''-- Cost Impact: '' @ estimated_cost_impact issue @ [newline]"

definition commented_original :: "string \<Rightarrow> string" where
  "commented_original orig =
     ''-- ORIGINAL: '' @ orig @ (if \<not> endswith orig [newline] then [newline] else [])"

definition suggested_text :: "SQLIssue \<Rightarrow> string" where
  "suggested_text issue =
     (case suggested_fix issue of
        None \<Rightarrow> []
      | Some f \<Rightarrow> if f \<noteq> [] \<and> \<not> startswith f ''--'' then f @ [newline] else [])"

definition replacement :: "SQLIssue \<Rightarrow> string \<Rightarrow> string" where
  "replacement issue orig =
     fix_comment issue @ commented_original orig @ suggested_text issue"

text \<open>The body of the loop of \<open>_fix_file_issues\<close>, for one finding.\<close>

definition apply_issue :: "string list \<Rightarrow> SQLIssue \<Rightarrow> py_error + string list" where
  "apply_issue lines issue =
     (let line_idx = line_number issue - 1
      in if line_idx \<ge> int (length lines) then Inr lines
         else case py_index lines line_idx of
                Inl e \<Rightarrow> Inl e
              | Inr k \<Rightarrow> Inr (lines[k := replacement issue (lines ! k)]))"

fun apply_issues :: "string list \<Rightarrow> SQLIssue list \<Rightarrow> py_error + string list" where
  "apply_issues lines [] = Inr lines"
| "apply_issues lines (issue # rest) =
     (case apply_issue lines issue of
        Inl e \<Rightarrow> Inl e
      | Inr lines' \<Rightarrow> apply_issues lines' rest)"

text \<open>\<^verbatim>\<open>issues.sort(key=lambda x: x.line_number, reverse=True)\<close>: a stable sort, findings of
  the same line keeping their order.\<close>

definition sort_desc :: "SQLIssue list \<Rightarrow> SQLIssue list" where
  "sort_desc xs = sort_key (\<lambda>x. - line_number x) xs"

definition fixed_lines :: "string list \<Rightarrow> SQLIssue list \<Rightarrow> py_error + string list" where
  "fixed_lines lines xs = apply_issues lines (sort_desc xs)"

text \<open>\<open>_fix_file_issues\<close>; \<open>now\<close> is the time stamp that \<open>strftime\<close> returns. An
  \<open>IndexError\<close> of the loop is not caught and leaves the files as they were.\<close>

definition fix_file_issues ::
  "string \<Rightarrow> string \<Rightarrow> SQLIssue list \<Rightarrow> world \<times> message list \<Rightarrow> py_error + world \<times> message list" where
  "fix_file_issues now path xs wo =
     (case read_text (fst wo) path of
        Inl e \<Rightarrow> Inr (fst wo, snd wo @ [ErrorReading path e])
      | Inr content \<Rightarrow>
          (case fixed_lines (readlines content) xs of
             Inl e \<Rightarrow> Inl e
           | Inr lines \<Rightarrow>
               (let backup_path = path @ ''.backup.'' @ now
                in case write_error (fst wo) backup_path of
                     Some e \<Rightarrow> Inr (fst wo, snd wo @ [ErrorWriting path e])
                   | None \<Rightarrow>
                       (let w1 = write_file (fst wo) backup_path (concat lines)
                        in case write_error w1 path of
                             Some e \<Rightarrow> Inr (w1, snd wo @ [ErrorWriting path e])
                           | None \<Rightarrow>
                               Inr (write_file w1 path (concat lines),
                                    snd wo @ [Fixed (length xs) path backup_path])))))"

text \<open>The grouping of the findings by file, files in the order of their first finding.\<close>

fun group_add :: "SQLIssue \<Rightarrow> (string \<times> SQLIssue list) list \<Rightarrow> (string \<times> SQLIssue list) list" where
  "group_add x [] = [(file_path x, [x])]"
| "group_add x ((p, xs) # g) =
     (if p = file_path x then (p, xs @ [x]) # g else (p, xs) # group_add x g)"

definition issues_by_file :: "SQLIssue list \<Rightarrow> (string \<times> SQLIssue list) list" where
  "issues_by_file xs = fold group_add xs []"

fun fix_groups ::
  "(string \<Rightarrow> string) \<Rightarrow> bool \<Rightarrow> (string \<times> SQLIssue list) list \<Rightarrow> world \<times> message list \<Rightarrow>
   py_error + world \<times> message list" where
  "fix_groups clock dry_run [] wo = Inr wo"
| "fix_groups clock dry_run ((p, xs) # g) wo =
     (if dry_run then fix_groups clock dry_run g (fst wo, snd wo @ [WouldFix (length xs) p])
      else case fix_file_issues (clock p) p xs wo of
             Inl e \<Rightarrow> Inl e
           | Inr wo' \<Rightarrow> fix_groups clock dry_run g wo')"

text \<open>\<open>fix_issues_in_place\<close>; \<open>clock p\<close> is the time stamp at the moment the file \<open>p\<close> is
  fixed.\<close>

definition fix_issues_in_place ::
  "(string \<Rightarrow> string) \<Rightarrow> bool \<Rightarrow> SQLCostOptimizer \<Rightarrow> world \<Rightarrow> py_error + world \<times> SQLCostOptimizer" where
  "fix_issues_in_place clock dry_run st w =
     (if issues st = [] then Inr (w, st\<lparr>console := console st @ [NoIssuesToFix]\<rparr>)
      else case fix_groups clock dry_run (issues_by_file (issues st)) (w, console st) of
             Inl e \<Rightarrow> Inl e
           | Inr wo \<Rightarrow> Inr (fst wo, st\<lparr>console := snd wo\<rparr>))"

text \<open>A run of the program with \<open>--fix\<close>: the scan of the directory, then the fixes.\<close>

definition scan_and_fix ::
  "(string \<Rightarrow> string) \<Rightarrow> world \<Rightarrow> string \<Rightarrow> py_error + world \<times> SQLCostOptimizer" where
  "scan_and_fix clock w etl_path =
     (case scan_directory w etl_path init of
        Inl e \<Rightarrow> Inl e
      | Inr st \<Rightarrow> fix_issues_in_place clock False st w)"

text \<open>A file system with one directory \<open>etl\<close> that holds one readable file, on a
  system whose line separator is the newline.\<close>

definition one_file :: "string \<Rightarrow> string \<Rightarrow> world" where
  "one_file path text =
     \<lparr>path_exists = (\<lambda>p. p = ''etl'' \<or> p = path),
      rglob_sql = (\<lambda>p. if p = ''etl'' then [path] else []),
      files = (\<lambda>p. if p = path then Inr text else Inl ''No such file or directory''),
      write_error = (\<lambda>p. None),
      linesep = [newline]\<rparr>"

section \<open>The second script, \<open>optimizer_2.py\<close>\<close>

text \<open>
  \<open>str.upper\<close> on one character. The sharp s becomes two letters. The upper-case forms of
  the micro sign and of the y with diaeresis lie beyond code point 255; they are left as
  they are, which the tests of \<open>check_file\<close> cannot tell apart: all four are letters and
  occur in none of the words that the tests look for.
\<close>

definition upper_char :: "char \<Rightarrow> string" where
  "upper_char c =
     (let n = code c
      in if 97 \<le> n \<and> n \<le> 122 then [char_of (n - 32)]
         else if n = 223 then ''SS''
         else if (224 \<le> n \<and> n \<le> 246) \<or> (248 \<le> n \<and> n \<le> 254) then [char_of (n - 32)]
         else [c])"

definition py_upper :: "string \<Rightarrow> string" where
  "py_upper s = concat (map upper_char s)"

text \<open>\<open>re.sub(r, f, s)\<close> with a function \<open>f\<close> of the matched text.\<close>

fun sub_build :: "(string \<Rightarrow> string) \<Rightarrow> string \<Rightarrow> nat \<Rightarrow> (nat \<times> nat) list \<Rightarrow> string" where
  "sub_build f s pos [] = drop pos s"
| "sub_build f s pos (m # ms) =
     take (fst m - pos) (drop pos s) @ f (take (snd m - fst m) (drop (fst m) s)) @
     sub_build f s (snd m) ms"

definition re_sub :: "regex \<Rightarrow> (string \<Rightarrow> string) \<Rightarrow> string \<Rightarrow> string" where
  "re_sub r f s = sub_build f s 0 (finditer r s)"

text \<open>\<open>s.replace(old, new)\<close> for a one-character \<open>old\<close>.\<close>

definition replace_char :: "char \<Rightarrow> string \<Rightarrow> string \<Rightarrow> string" where
  "replace_char old new s = concat (map (\<lambda>c. if c = old then new else [c]) s)"

record finding =
  f_line :: int
  f_type :: string
  f_description :: string
  f_content :: string
  f_severity :: severity

definition large_tables :: "string list" where
  "large_tables = [''TRANSACTIONS'', ''ACCOUNTS'', ''CUSTOMERS'', ''ORDERS'', ''PAYMENTS'', ''EVENTS'']"

text \<open>\<^verbatim>\<open>\bUNION\s+(?!ALL)\<close>, the letters compared exactly.\<close>

definition union_exact :: regex where
  "union_exact = seqs [WordB, word_exact ''UNION'', Plus sp, Look False (word_exact ''ALL'')]"

text \<open>The window \<^verbatim>\<open>range(max(0, i-2), min(len(lines), i+3))\<close> around line \<open>i\<close>.\<close>

definition has_where :: "string list \<Rightarrow> nat \<Rightarrow> bool" where
  "has_where lines i =
     list_ex (\<lambda>j. py_in ''WHERE'' (py_upper (lines ! j))) [i - 2 ..< min (length lines) (i + 3)]"

text \<open>The body of the loop of \<open>check_file\<close> for line \<open>i\<close> (counted from 1) with text
  \<open>line\<close>: the findings it appends.\<close>

definition check_line :: "string list \<Rightarrow> nat \<Rightarrow> string \<Rightarrow> finding list" where
  "check_line lines i line =
     (let line_upper = strip (py_upper line);
          mk = (\<lambda>t d v. \<lparr>f_line = int i, f_type = t, f_description = d,
                          f_content = strip line, f_severity = v\<rparr>)
      in if startswith line_upper ''--'' \<or> line_upper = [] then []
         else
           (if py_in ''SELECT *'' line_upper
            then [mk ''select_star'' ''SELECT * found - scans all columns'' HIGH] else []) @
           concat (map (\<lambda>table.
              if (py_in (''FROM '' @ table) line_upper \<or> py_in (''JOIN '' @ table) line_upper)
                 \<and> \<not> has_where lines i
              then [mk ''missing_where'' (''Query on '' @ table @ '' without WHERE clause'') HIGH]
              else []) large_tables) @
           (if py_in ''ORDER BY'' line_upper \<and> \<not> py_in ''LIMIT'' line_upper \<and> \<not> py_in ''TOP'' line_upper
            then [mk ''order_no_limit'' ''ORDER BY without LIMIT - sorts entire result'' MEDIUM] else []) @
           (if (py_in ''CREATE TABLE'' line_upper \<or> py_in ''DROP TABLE'' line_upper)
               \<and> \<not> py_in ''TEMPORARY'' line_upper \<and> \<not> py_in ''TEMP'' line_upper
            then [mk ''create_drop_table'' ''Creating/dropping permanent tables in ETL'' HIGH] else []) @
           (if re_search union_exact line_upper
            then [mk ''union_without_all'' ''UNION without ALL - does unnecessary deduplication'' MEDIUM] else []) @
           (if py_in ''SELECT DISTINCT'' line_upper
            then [mk ''distinct_usage'' ''DISTINCT usage - consider if GROUP BY is better'' MEDIUM] else []))"

definition check_content :: "string \<Rightarrow> finding list" where
  "check_content content =
     (let lines = split_nl content
      in concat (map (\<lambda>i. check_line lines i (lines ! (i - 1))) [1 ..< Suc (length lines)]))"

text \<open>\<open>check_file\<close>: a file that cannot be read has no findings, and nothing is printed.\<close>

definition check_file :: "world \<Rightarrow> string \<Rightarrow> finding list" where
  "check_file w path =
     (case read_text w path of Inl e \<Rightarrow> [] | Inr content \<Rightarrow> check_content content)"

text \<open>The object of class \<open>SqlOptimizer\<close> with what it has printed; \<open>FoundSql n\<close> is
  \<^verbatim>\<open>Found {n} SQL files\<close>.\<close>

datatype message2 = FoundSql nat

record SqlOptimizer =
  results :: "(string \<times> finding list) list"
  printed :: "message2 list"

definition init2 :: SqlOptimizer where
  "init2 = \<lparr>results = [], printed = []\<rparr>"

definition scan_file2 :: "world \<Rightarrow> string \<Rightarrow> SqlOptimizer \<Rightarrow> SqlOptimizer" where
  "scan_file2 w path st =
     (let found = check_file w path
      in if found \<noteq> [] then st\<lparr>results := results st @ [(path, found)]\<rparr> else st)"

text \<open>\<open>scan_files\<close>; the walk of the directory gives the \<open>.sql\<close> files below it.\<close>

definition scan_files :: "world \<Rightarrow> string \<Rightarrow> SqlOptimizer \<Rightarrow> SqlOptimizer" where
  "scan_files w etl_dir st =
     (let sql_files = rglob_sql w etl_dir;
          st1 = st\<lparr>printed := printed st @ [FoundSql (length sql_files)]\<rparr>
      in fold (scan_file2 w) sql_files st1)"

text \<open>\<^verbatim>\<open>SELECT\s+\*(?=\s+FROM)\<close>\<close>
definition fix_select_star :: regex where
  "fix_select_star = seqs [word ''SELECT'', Plus sp, word ''*'', Look True (Seq (Plus sp) (word ''FROM''))]"

text \<open>\<^verbatim>\<open>\bUNION\s+(?!ALL)\<close>\<close>
definition fix_union :: regex where
  "fix_union = seqs [WordB, word ''UNION'', Plus sp, Look False (word ''ALL'')]"

text \<open>\<^verbatim>\<open>ORDER\s+BY\s+[^;]*(?=;|\s*$)\<close>\<close>
definition fix_order :: regex where
  "fix_order = seqs [word ''ORDER'', Plus sp, word ''BY'', Plus sp, Star (Atom (NoneOf '';'')),
     Look True (Alt (word '';'') (Seq (Star sp) Dollar))]"

text \<open>\<^verbatim>\<open>CREATE\s+TABLE\s+(?!.*TRANSIENT)(?=\w+\.(temp_|tmp_|staging_))\<close>\<close>
definition fix_create :: regex where
  "fix_create = seqs [word ''CREATE'', Plus sp, word ''TABLE'', Plus sp,
     Look False (Seq (Star (Atom Dot)) (word ''TRANSIENT'')),
     Look True (seqs [Plus (Atom WordCh), word ''.'',
                      alts [word ''temp_'', word ''tmp_'', word ''staging_'']])]"

definition add_limit_to_order :: "string \<Rightarrow> string" where
  "add_limit_to_order order_clause =
     (if CHR '';'' \<in> set order_clause then replace_char CHR '';'' '' LIMIT 1000;'' order_clause
      else order_clause @ '' LIMIT 1000'')"

text \<open>The four substitutions of \<open>fix_single_file\<close> on the text of the file. The findings
  that the method is given play no part in them.\<close>

definition fix_content :: "string \<Rightarrow> string" where
  "fix_content content =
     (let c1 = re_sub fix_select_star
                 (\<lambda>m. ''SELECT \<newline>    -- TODO: Replace * with specific columns\<newline>    *'') content;
          c2 = re_sub fix_union (\<lambda>m. ''UNION ALL '') c1;
          c3 = re_sub fix_order add_limit_to_order c2;
          c4 = re_sub fix_create (\<lambda>m. ''CREATE OR REPLACE TRANSIENT TABLE '') c3
      in c4)"

datatype io_error = ReadError string | WriteError string

text \<open>\<open>fix_single_file\<close>: it has no handler, so a file that cannot be read or written
  raises.\<close>

definition fix_single_file :: "world \<Rightarrow> string \<Rightarrow> finding list \<Rightarrow> io_error + world" where
  "fix_single_file w path found =
     (case read_text w path of
        Inl e \<Rightarrow> Inl (ReadError e)
      | Inr content \<Rightarrow>
          (case write_error w path of
             Some e \<Rightarrow> Inl (WriteError e)
           | None \<Rightarrow> Inr (write_file w path (fix_content content))))"

section \<open>Properties of the session counters\<close>

definition count_severity :: "severity \<Rightarrow> SQLIssue list \<Rightarrow> int" where
  "count_severity v xs = int (length (filter (\<lambda>x. severity x = v) xs))"

definition stats_inv :: "SQLCostOptimizer \<Rightarrow> bool" where
  "stats_inv st =
     (issues_found (stats st) = int (length (issues st)) \<and>
      issues_found (stats st) =
        high_severity (stats st) + medium_severity (stats st) + low_severity (stats st) \<and>
      high_severity (stats st) = count_severity HIGH (issues st) \<and>
      medium_severity (stats st) = count_severity MEDIUM (issues st) \<and>
      low_severity (stats st) = count_severity LOW (issues st))"

lemma fold_preserves:
  assumes "\<And>x s. P s \<Longrightarrow> P (f x s)" and "P s"
  shows "P (fold f xs s)"
  using assms(2) by (induction xs arbitrary: s) (simp_all add: assms(1))

lemma stats_inv_init: "stats_inv init"
  by (simp add: stats_inv_def init_def count_severity_def)

lemma stats_inv_scan_match:
  assumes "stats_inv st"
  shows "stats_inv (scan_match path content pr m st)"
proof (cases "is_in_comment content (fst m)")
  case True
  with assms show ?thesis by (simp add: scan_match_def)
next
  case False
  with assms show ?thesis
    by (cases "rule_severity (snd pr)")
       (simp_all add: scan_match_def stats_inv_def count_severity_def make_issue_def)
qed

lemma stats_inv_scan_pattern:
  "stats_inv st \<Longrightarrow> stats_inv (scan_pattern path content pr st)"
  unfolding scan_pattern_def by (rule fold_preserves) (rule stats_inv_scan_match)

lemma stats_inv_scan_sql_file:
  assumes "stats_inv st"
  shows "stats_inv (scan_sql_file w path st)"
proof -
  let ?st1 = "st\<lparr>stats := (stats st)\<lparr>files_scanned := files_scanned (stats st) + 1\<rparr>\<rparr>"
  from assms have st1: "stats_inv ?st1" by (simp add: stats_inv_def)
  show ?thesis
  proof (cases "read_text w path")
    case (Inl e)
    with st1 show ?thesis by (simp add: scan_sql_file_def stats_inv_def)
  next
    case (Inr content)
    have "stats_inv (fold (scan_pattern path content) patterns ?st1)"
      by (rule fold_preserves) (rule stats_inv_scan_pattern, assumption, rule st1)
    with Inr show ?thesis by (simp add: scan_sql_file_def)
  qed
qed

text \<open>
  C9. Whatever files are scanned, one after the other, from the state the constructor
  sets up: the counter \<open>issues_found\<close> is the number of accumulated findings and the sum
  of the three severity counters, and each severity counter is the number of accumulated
  findings of its severity.
\<close>

theorem counters_agree_with_findings:
  "stats_inv (fold (scan_sql_file w) paths init)"
  by (rule fold_preserves) (rule stats_inv_scan_sql_file, assumption, rule stats_inv_init)

section \<open>Properties of the fixer\<close>




text \<open>The cell of line \<open>k + 1\<close> after the findings \<open>xs\<close>: the findings that name the line
  rewrite it one after the other, in their order.\<close>

definition rewritten :: "SQLIssue list \<Rightarrow> nat \<Rightarrow> string \<Rightarrow> string" where
  "rewritten xs k l = fold replacement (filter (\<lambda>x. line_number x = int k + 1) xs) l"

lemma apply_issue_in_range:
  assumes "1 \<le> line_number x" "line_number x \<le> int (length ls)"
  shows "apply_issue ls x =
    Inr (ls[nat (line_number x - 1) := replacement x (ls ! nat (line_number x - 1))])"
  using assms by (simp add: apply_issue_def py_index_def Let_def)

lemma apply_issue_cells:
  assumes "1 \<le> line_number x"
  shows "\<exists>ls'. apply_issue ls x = Inr ls' \<and> length ls' = length ls \<and>
           take (nat (line_number x - 1)) ls' = take (nat (line_number x - 1)) ls \<and>
           (\<forall>k < length ls. ls' ! k = (if line_number x = int k + 1 then replacement x (ls ! k) else ls ! k))"
proof (cases "line_number x \<le> int (length ls)")
  case True
  define i where "i = nat (line_number x - 1)"
  have i: "i < length ls" "line_number x = int i + 1" using True assms by (simp_all add: i_def)
  have "apply_issue ls x = Inr (ls[i := replacement x (ls ! i)])"
    using apply_issue_in_range [OF assms True] by (simp add: i_def)
  moreover have "\<forall>k < length ls. ls[i := replacement x (ls ! i)] ! k =
      (if line_number x = int k + 1 then replacement x (ls ! k) else ls ! k)"
    using i by (auto simp: nth_list_update)
  moreover have "take i (ls[i := replacement x (ls ! i)]) = take i ls" by simp
  ultimately show ?thesis by (simp add: i_def)
next
  case False
  then have "apply_issue ls x = Inr ls" by (simp add: apply_issue_def)
  moreover have "\<forall>k < length ls. line_number x \<noteq> int k + 1" using False by auto
  ultimately show ?thesis by simp
qed

lemma apply_issues_cells:
  assumes "\<forall>x \<in> set ys. 1 \<le> line_number x"
  shows "\<exists>ls'. apply_issues ls ys = Inr ls' \<and> length ls' = length ls \<and>
           (\<forall>k < length ls. ls' ! k = rewritten ys k (ls ! k))"
  using assms
proof (induction ys arbitrary: ls)
  case Nil
  show ?case by (simp add: rewritten_def)
next
  case (Cons y ys)
  from Cons.prems have y: "1 \<le> line_number y" and ys: "\<forall>x \<in> set ys. 1 \<le> line_number x"
    by simp_all
  from apply_issue_cells [OF y, of ls] obtain l1 where l1: "apply_issue ls y = Inr l1"
      "length l1 = length ls"
      "\<forall>k < length ls. l1 ! k = (if line_number y = int k + 1 then replacement y (ls ! k) else ls ! k)"
    by blast
  from Cons.IH [OF ys, of l1] obtain l2 where l2: "apply_issues l1 ys = Inr l2"
      "length l2 = length l1" "\<forall>k < length l1. l2 ! k = rewritten ys k (l1 ! k)"
    by blast
  have "\<forall>k < length ls. l2 ! k = rewritten (y # ys) k (ls ! k)"
    using l1(2,3) l2(3) by (simp add: rewritten_def)
  then show ?case using l1(1,2) l2(1,2) by simp
qed

lemma rewritten_sort_desc: "rewritten (sort_desc xs) k l = rewritten xs k l"
proof -
  have a: "filter (\<lambda>x. - line_number x = - (int k + 1)) (sort_key (\<lambda>x. - line_number x) xs) =
      filter (\<lambda>x. - line_number x = - (int k + 1)) xs"
    by (rule sort_key_stable)
  have b: "(\<lambda>x. - line_number x = - (int k + 1)) = (\<lambda>x. line_number x = int k + 1)"
    by auto
  from a have "filter (\<lambda>x. line_number x = int k + 1) (sort_key (\<lambda>x. - line_number x) xs) =
      filter (\<lambda>x. line_number x = int k + 1) xs"
    unfolding b .
  then show ?thesis by (simp only: rewritten_def sort_desc_def)
qed

lemma fixed_lines_cells:
  assumes "\<forall>x \<in> set xs. 1 \<le> line_number x"
  shows "\<exists>lines'. fixed_lines lines xs = Inr lines' \<and> length lines' = length lines \<and>
           (\<forall>k < length lines. lines' ! k = rewritten xs k (lines ! k))"
proof -
  from assms have "\<forall>x \<in> set (sort_desc xs). 1 \<le> line_number x" by (simp add: sort_desc_def)
  from apply_issues_cells [OF this, of lines] show ?thesis
    by (simp add: fixed_lines_def rewritten_sort_desc)
qed

lemma fixed_lines_map:
  assumes "\<forall>x \<in> set xs. 1 \<le> line_number x"
  shows "fixed_lines lines xs = Inr (map (\<lambda>k. rewritten xs k (lines ! k)) [0 ..< length lines])"
proof -
  from fixed_lines_cells [OF assms, of lines] obtain lines' where l:
      "fixed_lines lines xs = Inr lines'" "length lines' = length lines"
      "\<forall>k < length lines. lines' ! k = rewritten xs k (lines ! k)"
    by blast
  have "lines' = map (\<lambda>k. rewritten xs k (lines ! k)) [0 ..< length lines]"
    using l(2,3) by (intro nth_equalityI) simp_all
  with l(1) show ?thesis by simp
qed

lemma universal_newlines_id: "CR \<notin> set s \<Longrightarrow> universal_newlines s = s"
  by (induction s rule: universal_newlines.induct) auto

lemma to_linesep_id: "to_linesep [newline] t = t"
  by (induction t) (simp_all add: to_linesep_def)

lemma concat_readlines_acc: "concat (readlines_acc cur s) = cur @ s"
  by (induction s arbitrary: cur) simp_all

lemma concat_readlines: "concat (readlines s) = s"
  by (simp add: readlines_def concat_readlines_acc)

lemma replacement_original:
  "replacement x l = (fix_comment x @ ''-- ORIGINAL: '') @ l @
     ((if \<not> endswith l [newline] then [newline] else []) @ suggested_text x)"
  by (simp add: replacement_def commented_original_def)

lemma endswith_single: "endswith s [c] \<longleftrightarrow> s \<noteq> [] \<and> last s = c"
  by (cases s rule: rev_cases) (simp_all add: endswith_def)

lemma fix_comment_ends: "endswith (t @ fix_comment x) [newline]"
  by (simp add: endswith_single fix_comment_def)

lemma fold_replacement_original:
  "ys \<noteq> [] \<Longrightarrow>
   \<exists>pre suf. fold replacement ys l = pre @ ''-- ORIGINAL: '' @ l @ suf \<and> endswith pre [newline]"
proof (induction ys arbitrary: l)
  case Nil
  then show ?case by simp
next
  case (Cons y ys)
  define tail where "tail = (if \<not> endswith l [newline] then [newline] else []) @ suggested_text y"
  have r: "replacement y l = fix_comment y @ ''-- ORIGINAL: '' @ l @ tail"
    by (simp add: replacement_original tail_def)
  show ?case
  proof (cases "ys = []")
    case True
    have "fold replacement (y # ys) l = fix_comment y @ ''-- ORIGINAL: '' @ l @ tail"
      using True r by simp
    moreover have "endswith (fix_comment y) [newline]" using fix_comment_ends [of "[]" y] by simp
    ultimately show ?thesis by blast
  next
    case False
    from Cons.IH [OF False, of "replacement y l"] obtain pre suf where
      p: "fold replacement ys (replacement y l) = pre @ ''-- ORIGINAL: '' @ replacement y l @ suf"
      by blast
    have "fold replacement (y # ys) l =
        ((pre @ ''-- ORIGINAL: '') @ fix_comment y) @ ''-- ORIGINAL: '' @ l @ (tail @ suf)"
      using p r by simp
    moreover have "endswith ((pre @ ''-- ORIGINAL: '') @ fix_comment y) [newline]"
      by (rule fix_comment_ends)
    ultimately show ?thesis by blast
  qed
qed

lemma write_file_files: "files (write_file w p t) = (files w)(p := Inr (to_linesep (linesep w) t))"
  by (simp add: write_file_def)

lemma fix_file_issues_result:
  assumes "files w p = Inr raw" "CR \<notin> set raw" "linesep w = [newline]"
    and "write_error w (p @ ''.backup.'' @ now) = None" "write_error w p = None"
    and "\<forall>x \<in> set xs. 1 \<le> line_number x"
  shows "\<exists>w' out'. fix_file_issues now p xs (w, out) = Inr (w', out') \<and>
      files w' p = Inr (concat (map (\<lambda>k. rewritten xs k (readlines raw ! k))
                                    [0 ..< length (readlines raw)]))"
proof -
  have r: "read_text w p = Inr raw"
    using assms(1,2) by (simp add: read_text_def universal_newlines_id)
  note f = fixed_lines_map [OF assms(6), of "readlines raw"]
  show ?thesis
    using r f assms(3,4,5)
    by (simp add: fix_file_issues_def Let_def write_file_def to_linesep_id)
qed

definition issue_at :: "int \<Rightarrow> SQLIssue" where
  "issue_at n =
     \<lparr>file_path = ''q.sql'', line_number = n, issue_type = ''create_drop_table'',
      severity = HIGH, description = ''d'', original_line = ''DROP TABLE t;'',
      suggested_fix = None, estimated_cost_impact = ''c''\<rparr>"



lemma sort_desc_descending:
  "sorted_wrt (\<lambda>a b. line_number a \<ge> line_number b) (sort_desc xs)"
proof -
  have "sorted (map (\<lambda>x. - line_number x) (sort_desc xs))"
    unfolding sort_desc_def by (rule sorted_sort_key)
  then show ?thesis by (simp add: sorted_map)
qed

text \<open>
  C2, for a file without carriage returns on a system whose line separator is the
  newline, and findings with line numbers from 1 on. The fixer of \<open>sql_cost_optimizer.py\<close>
  applies the findings in descending order of their line numbers; applying one finding
  leaves all lines before its own as they are; the text it writes to the file is the
  lines of the file in their order, where a line that no finding names stands as it was,
  and a line that findings name stands, whole, in the block that replaces it, after the
  marker \<open>-- ORIGINAL:\<close> at the start of a line. The fixer of \<open>optimizer_2.py\<close> does the same
  whatever findings it is given.
\<close>

theorem fixer_keeps_the_other_lines:
  assumes "files w p = Inr raw" and "CR \<notin> set raw" and "linesep w = [newline]"
    and "write_error w (p @ ''.backup.'' @ now) = None" and "write_error w p = None"
    and "\<forall>x \<in> set xs. 1 \<le> line_number x"
  shows "sorted_wrt (\<lambda>a b. line_number a \<ge> line_number b) (sort_desc xs) \<and>
     set (sort_desc xs) = set xs \<and>
     (\<forall>x \<in> set xs. \<forall>ls. \<exists>ls'. apply_issue ls x = Inr ls' \<and>
         take (nat (line_number x - 1)) ls' = take (nat (line_number x - 1)) ls) \<and>
     concat (readlines raw) = raw \<and>
     (\<exists>w' out'. fix_file_issues now p xs (w, out) = Inr (w', out') \<and>
        files w' p = Inr (concat (map (\<lambda>k. rewritten xs k (readlines raw ! k))
                                      [0 ..< length (readlines raw)]))) \<and>
     (\<forall>k < length (readlines raw). (\<forall>x \<in> set xs. line_number x \<noteq> int k + 1) \<longrightarrow>
        rewritten xs k (readlines raw ! k) = readlines raw ! k) \<and>
     (\<forall>k < length (readlines raw). (\<exists>x \<in> set xs. line_number x = int k + 1) \<longrightarrow>
        (\<exists>pre suf. rewritten xs k (readlines raw ! k) =
                      pre @ ''-- ORIGINAL: '' @ readlines raw ! k @ suf \<and>
                    endswith pre [newline])) \<and>
     fix_single_file w p f1 = fix_single_file w p f2"
proof (intro conjI ballI allI impI)
  show "sorted_wrt (\<lambda>a b. line_number a \<ge> line_number b) (sort_desc xs)"
    by (rule sort_desc_descending)
  show "set (sort_desc xs) = set xs" by (simp add: sort_desc_def)
  show "\<exists>ls'. apply_issue ls x = Inr ls' \<and>
         take (nat (line_number x - 1)) ls' = take (nat (line_number x - 1)) ls"
    if "x \<in> set xs" for x ls
    using apply_issue_cells [of x ls] that assms(6) by blast
  show "concat (readlines raw) = raw" by (rule concat_readlines)
  show "\<exists>w' out'. fix_file_issues now p xs (w, out) = Inr (w', out') \<and>
        files w' p = Inr (concat (map (\<lambda>k. rewritten xs k (readlines raw ! k))
                                      [0 ..< length (readlines raw)]))"
    by (rule fix_file_issues_result [OF assms])
  show "rewritten xs k (readlines raw ! k) = readlines raw ! k"
    if "\<forall>x \<in> set xs. line_number x \<noteq> int k + 1" for k
  proof -
    from that have "filter (\<lambda>x. line_number x = int k + 1) xs = []"
      by (simp add: filter_empty_conv)
    then show ?thesis by (simp add: rewritten_def)
  qed
  show "\<exists>pre suf. rewritten xs k (readlines raw ! k) =
                      pre @ ''-- ORIGINAL: '' @ readlines raw ! k @ suf \<and>
                    endswith pre [newline]"
    if "\<exists>x \<in> set xs. line_number x = int k + 1" for k
  proof -
    from that have "filter (\<lambda>x. line_number x = int k + 1) xs \<noteq> []"
      by (simp add: filter_empty_conv)
    from fold_replacement_original [OF this] show ?thesis by (simp add: rewritten_def)
  qed
  show "fix_single_file w p f1 = fix_single_file w p f2" by (simp add: fix_single_file_def)
qed

theorem fixer_keeps_the_other_lines_witness:
  "files (one_file ''etl/q.sql'' ''a\<newline>b\<newline>c\<newline>'') ''etl/q.sql'' = Inr ''a\<newline>b\<newline>c\<newline>'' \<and>
   CR \<notin> set ''a\<newline>b\<newline>c\<newline>'' \<and>
   list_all (\<lambda>x. 1 \<le> line_number x) [issue_at 1, issue_at 3] \<and>
   sort_desc [issue_at 1, issue_at 3] = [issue_at 3, issue_at 1] \<and>
   (\<exists>w' out'. fix_file_issues ''20240101_120000'' ''etl/q.sql'' [issue_at 1, issue_at 3]
        (one_file ''etl/q.sql'' ''a\<newline>b\<newline>c\<newline>'', []) = Inr (w', out') \<and>
      files w' ''etl/q.sql'' =
        Inr ''-- COST OPTIMIZATION FIX: d\<newline>-- Original line commented below, optimized version added\<newline>-- Cost Impact: c\<newline>-- ORIGINAL: a\<newline>b\<newline>-- COST OPTIMIZATION FIX: d\<newline>-- Original line commented below, optimized version added\<newline>-- Cost Impact: c\<newline>-- ORIGINAL: c\<newline>'')"
proof -
  let ?raw = "''a\<newline>b\<newline>c\<newline>''"
  let ?w = "one_file ''etl/q.sql'' ?raw"
  let ?xs = "[issue_at 1, issue_at 3]"
  have h1: "files ?w ''etl/q.sql'' = Inr ?raw" by (simp add: one_file_def)
  have h2: "CR \<notin> set ?raw" by (simp add: CR_def newline_def)
  have h3: "linesep ?w = [newline]" by (simp add: one_file_def)
  have h4: "write_error ?w (''etl/q.sql'' @ ''.backup.'' @ ''20240101_120000'') = None"
    and h5: "write_error ?w ''etl/q.sql'' = None"
    by (simp_all add: one_file_def)
  have h6: "\<forall>x \<in> set ?xs. 1 \<le> line_number x" by (simp add: issue_at_def)
  have e: "concat (map (\<lambda>k. rewritten ?xs k (readlines ?raw ! k)) [0 ..< length (readlines ?raw)]) =
      ''-- COST OPTIMIZATION FIX: d\<newline>-- Original line commented below, optimized version added\<newline>-- Cost Impact: c\<newline>-- ORIGINAL: a\<newline>b\<newline>-- COST OPTIMIZATION FIX: d\<newline>-- Original line commented below, optimized version added\<newline>-- Cost Impact: c\<newline>-- ORIGINAL: c\<newline>''"
    by code_simp
  have s: "sort_desc ?xs = [issue_at 3, issue_at 1]" by (simp add: sort_desc_def issue_at_def)
  from fixer_keeps_the_other_lines [OF h1 h2 h3 h4 h5 h6, of "[]"]
  obtain w' out' where "fix_file_issues ''20240101_120000'' ''etl/q.sql'' ?xs (?w, []) = Inr (w', out')"
      "files w' ''etl/q.sql'' =
        Inr (concat (map (\<lambda>k. rewritten ?xs k (readlines ?raw ! k)) [0 ..< length (readlines ?raw)]))"
    by blast
  moreover have "list_all (\<lambda>x. 1 \<le> line_number x) ?xs" using h6 by (simp only: list_all_iff)
  ultimately show ?thesis using h1 h2 s e by auto
qed

section \<open>Line numbers and line texts of findings\<close>

text \<open>
  The specification's words for the place of a match that starts at position \<open>p\<close>: the
  line number is the count of newline characters strictly before \<open>p\<close>, plus one; the line
  is the text from the character after the last newline before \<open>p\<close> (or from the start of
  the text) up to the next newline (or the end of the text).
\<close>

definition spec_line_number :: "string \<Rightarrow> nat \<Rightarrow> int" where
  "spec_line_number text p = int (length (filter (\<lambda>k. text ! k = newline) [0 ..< p])) + 1"

definition spec_line_start :: "string \<Rightarrow> nat \<Rightarrow> nat" where
  "spec_line_start text p = p - length (takeWhile (\<lambda>c. c \<noteq> newline) (rev (take p text)))"

definition spec_line :: "string \<Rightarrow> nat \<Rightarrow> string" where
  "spec_line text p = takeWhile (\<lambda>c. c \<noteq> newline) (drop (spec_line_start text p) text)"

lemma split_nl_nonempty: "split_nl s \<noteq> []"
  by (induction s) (auto split: list.splits)

lemma split_nl_append: "split_nl (xs @ newline # ys) = split_nl xs @ split_nl ys"
proof (induction xs)
  case Nil
  show ?case using split_nl_nonempty [of ys] by (cases "split_nl ys") simp_all
next
  case (Cons c xs)
  obtain l ls where l: "split_nl xs = l # ls" using split_nl_nonempty [of xs] by (cases "split_nl xs") auto
  with Cons show ?case by simp
qed

lemma length_split_nl: "length (split_nl s) = Suc (count_nl s)"
proof (induction s)
  case Nil show ?case by (simp add: count_nl_def)
next
  case (Cons c s)
  obtain l ls where l: "split_nl s = l # ls" using split_nl_nonempty [of s] by (cases "split_nl s") auto
  with Cons show ?case by (auto simp: count_nl_def)
qed

lemma hd_split_nl: "hd (split_nl s) = takeWhile (\<lambda>c. c \<noteq> newline) s"
proof (induction s)
  case Nil show ?case by simp
next
  case (Cons c s)
  obtain l ls where l: "split_nl s = l # ls" using split_nl_nonempty [of s] by (cases "split_nl s") auto
  with Cons show ?case by auto
qed

lemma count_nl_append: "count_nl (xs @ ys) = count_nl xs + count_nl ys"
  by (simp add: count_nl_def)

lemma count_nl_none: "newline \<notin> set xs \<Longrightarrow> count_nl xs = 0"
  by (induction xs) (auto simp: count_nl_def)

text \<open>A text cut at a position: the part before the line of the position, which is
  empty or ends with a newline, and the part of the line before the position.\<close>

lemma prefix_cut:
  fixes pre :: string
  defines "b \<equiv> rev (takeWhile (\<lambda>c. c \<noteq> newline) (rev pre))"
  defines "a \<equiv> rev (dropWhile (\<lambda>c. c \<noteq> newline) (rev pre))"
  shows "pre = a @ b" and "newline \<notin> set b" and "a = [] \<or> (\<exists>a'. a = a' @ [newline])"
proof -
  have "rev pre = takeWhile (\<lambda>c. c \<noteq> newline) (rev pre) @ dropWhile (\<lambda>c. c \<noteq> newline) (rev pre)"
    by simp
  then have "rev (rev pre) = a @ b" unfolding a_def b_def by (metis rev_append)
  then show "pre = a @ b" by simp
  show "newline \<notin> set b" unfolding b_def using set_takeWhileD by fastforce
  show "a = [] \<or> (\<exists>a'. a = a' @ [newline])"
  proof (cases "dropWhile (\<lambda>c. c \<noteq> newline) (rev pre)")
    case Nil then show ?thesis by (simp add: a_def)
  next
    case (Cons x xs)
    then have "x = newline" using hd_dropWhile [of "\<lambda>c. c \<noteq> newline" "rev pre"] by auto
    with Cons show ?thesis by (simp add: a_def)
  qed
qed

lemma split_nl_line:
  assumes "a = [] \<or> (\<exists>a'. a = a' @ [newline])"
  shows "split_nl (a @ rest) ! count_nl a = takeWhile (\<lambda>c. c \<noteq> newline) rest"
proof (cases "a = []")
  case True
  then show ?thesis
    using hd_split_nl [of rest] split_nl_nonempty [of rest]
    by (simp add: count_nl_def hd_conv_nth)
next
  case False
  with assms obtain a' where a: "a = a' @ [newline]" by auto
  have "split_nl (a @ rest) = split_nl a' @ split_nl rest"
    using split_nl_append [of a' rest] by (simp add: a)
  moreover have "count_nl a = length (split_nl a')"
    by (simp add: a length_split_nl count_nl_def)
  ultimately show ?thesis
    using hd_split_nl [of rest] split_nl_nonempty [of rest]
    by (simp add: nth_append hd_conv_nth)
qed

lemma line_content_of_spec:
  assumes "p \<le> length content"
  shows "line_content_of content p = strip (spec_line content p)"
proof -
  define pre where "pre = take p content"
  define post where "post = drop p content"
  define b where "b = rev (takeWhile (\<lambda>c. c \<noteq> newline) (rev pre))"
  define a where "a = rev (dropWhile (\<lambda>c. c \<noteq> newline) (rev pre))"
  have ab: "pre = a @ b" "newline \<notin> set b" "a = [] \<or> (\<exists>a'. a = a' @ [newline])"
    using prefix_cut [of pre] by (simp_all add: a_def b_def)
  have content: "content = a @ b @ post"
    using ab(1) append_take_drop_id [of p content] by (simp add: pre_def post_def)
  have lp: "length pre = p" using assms by (simp add: pre_def)
  have cnt: "count_nl pre = count_nl a" using ab by (simp add: count_nl_append count_nl_none)
  have start: "spec_line_start content p = length a"
  proof -
    have "length b = length (takeWhile (\<lambda>c. c \<noteq> newline) (rev pre))" by (simp add: b_def)
    moreover have "length a + length b = p" using ab(1) lp by (metis length_append)
    ultimately show ?thesis by (simp add: spec_line_start_def pre_def)
  qed
  have "drop (length a) content = b @ post" by (simp add: content)
  then have "spec_line content p = takeWhile (\<lambda>c. c \<noteq> newline) (b @ post)"
    by (simp only: spec_line_def start)
  moreover have "split_nl content ! count_nl pre = takeWhile (\<lambda>c. c \<noteq> newline) (b @ post)"
    using split_nl_line [OF ab(3), of "b @ post"] by (simp only: content cnt)
  moreover have "count_nl pre < length (split_nl content)"
    by (simp add: length_split_nl content cnt count_nl_append)
  ultimately show ?thesis
    unfolding line_content_of_def line_num_of_def Let_def pre_def by simp
qed

lemma line_num_of_spec:
  assumes "p \<le> length content"
  shows "line_num_of content p = spec_line_number content p"
proof -
  have "take p content = map ((!) content) [0 ..< p]"
    using assms by (metis map_nth take_map take_upt add_0)
  then have "filter (\<lambda>c. c = newline) (take p content) =
      map ((!) content) (filter (\<lambda>k. content ! k = newline) [0 ..< p])"
    by (simp add: filter_map comp_def)
  then show ?thesis
    by (simp add: line_num_of_def spec_line_number_def count_nl_def)
qed

lemma finditer_from_bounds:
  "m \<in> set (finditer_from r s i adv) \<Longrightarrow> i \<le> fst m \<and> fst m \<le> length s"
proof (induction r s i adv rule: finditer_from.induct)
  case (1 r s i adv)
  show ?case
  proof (cases "length s < i")
    case True
    with 1(3) show ?thesis by simp
  next
    case False
    show ?thesis
    proof (cases "match_at r s i adv")
      case None
      with False 1(3) have "m \<in> set (finditer_from r s (Suc i) False)" by simp
      from 1(1) [OF False None this] show ?thesis by simp
    next
      case (Some e)
      with False 1(3) have "m = (i, e) \<or> m \<in> set (finditer_from r s e (e = i))" by simp
      then show ?thesis
      proof
        assume "m = (i, e)" with False show ?thesis by simp
      next
        assume "m \<in> set (finditer_from r s e (e = i))"
        from 1(2) [OF False Some this] match_at_ge [OF Some] show ?thesis by simp
      qed
    qed
  qed
qed

lemma fold_scan_match_issues:
  "issues (fold (scan_match path content pr) ms st) =
   issues st @ map (\<lambda>m. make_issue path content pr (fst m))
                 (filter (\<lambda>m. \<not> is_in_comment content (fst m)) ms)"
  by (induction ms arbitrary: st) (simp_all add: scan_match_def)

lemma finditer_bounds: "m \<in> set (finditer r s) \<Longrightarrow> fst m \<le> length s"
  using finditer_from_bounds [of m r s 0 False] by (simp add: finditer_def)

lemma scan_pattern_issues:
  "issues (scan_pattern path content pr st) =
   issues st @ map (\<lambda>m. make_issue path content pr (fst m))
                 (filter (\<lambda>m. \<not> is_in_comment content (fst m))
                    (finditer (pattern (snd pr)) content))"
  by (simp add: scan_pattern_def fold_scan_match_issues)

definition rule_named :: "string \<Rightarrow> string \<times> rule" where
  "rule_named n = (n, the (map_of patterns n))"

text \<open>
  C7. The findings that the scan adds for a rule are those of the rule's matches outside
  comments, in the order of the matches, and the finding of a match carries as line
  number the count of newlines strictly before the start of the match plus one, and as
  original line the text of that line with the white space at its two ends removed.
\<close>

theorem findings_carry_line_number_and_text:
  "issues (scan_pattern path content pr st) =
     issues st @ map (\<lambda>m. make_issue path content pr (fst m))
                   (filter (\<lambda>m. \<not> is_in_comment content (fst m))
                      (finditer (pattern (snd pr)) content)) \<and>
   (\<forall>m \<in> set (finditer (pattern (snd pr)) content).
      line_number (make_issue path content pr (fst m)) = spec_line_number content (fst m) \<and>
      original_line (make_issue path content pr (fst m)) = strip (spec_line content (fst m)))"
proof (intro conjI ballI)
  show "issues (scan_pattern path content pr st) =
     issues st @ map (\<lambda>m. make_issue path content pr (fst m))
                   (filter (\<lambda>m. \<not> is_in_comment content (fst m))
                      (finditer (pattern (snd pr)) content))"
    by (rule scan_pattern_issues)
next
  fix m assume "m \<in> set (finditer (pattern (snd pr)) content)"
  then have "fst m \<le> length content" by (rule finditer_bounds)
  then show "line_number (make_issue path content pr (fst m)) = spec_line_number content (fst m)"
      and "original_line (make_issue path content pr (fst m)) = strip (spec_line content (fst m))"
    by (simp_all add: make_issue_def line_num_of_spec line_content_of_spec)
qed

theorem findings_carry_line_number_and_text_witness:
  "(5, 15) \<in> set (finditer (pattern (snd (rule_named ''create_drop_table'')))
                    ''ab\<newline>  DROP TABLE t; \<newline>c'') \<and>
   line_number (make_issue ''q.sql'' ''ab\<newline>  DROP TABLE t; \<newline>c''
                  (rule_named ''create_drop_table'') 5) = 2 \<and>
   original_line (make_issue ''q.sql'' ''ab\<newline>  DROP TABLE t; \<newline>c''
                    (rule_named ''create_drop_table'') 5) = ''DROP TABLE t;''"
proof -
  let ?c = "''ab\<newline>  DROP TABLE t; \<newline>c''"
  let ?pr = "rule_named ''create_drop_table''"
  have m: "(5, 15) \<in> set (finditer (pattern (snd ?pr)) ?c)" by code_simp
  have n: "spec_line_number ?c 5 = 2" by code_simp
  have l: "strip (spec_line ?c 5) = ''DROP TABLE t;''" by code_simp
  from findings_carry_line_number_and_text [of "''q.sql''" ?c ?pr init]
  have "\<forall>m \<in> set (finditer (pattern (snd ?pr)) ?c).
      line_number (make_issue ''q.sql'' ?c ?pr (fst m)) = spec_line_number ?c (fst m) \<and>
      original_line (make_issue ''q.sql'' ?c ?pr (fst m)) = strip (spec_line ?c (fst m))"
    by (rule conjunct2)
  from bspec [OF this m] m n l show ?thesis by simp
qed

section \<open>Comment suppression\<close>

subsection \<open>Searching\<close>

lemma find_upt_None:
  "List.find P [a ..< n] = None \<longleftrightarrow> (\<forall>j. a \<le> j \<and> j < n \<longrightarrow> \<not> P j)"
  by (auto simp: find_None_iff)

lemma find_upt_Some:
  "List.find P [a ..< n] = Some k \<longleftrightarrow> a \<le> k \<and> k < n \<and> P k \<and> (\<forall>j. a \<le> j \<and> j < k \<longrightarrow> \<not> P j)"
proof (induction "n - a" arbitrary: a)
  case 0
  then show ?case by auto
next
  case (Suc d)
  then have an: "a < n" and d: "d = n - Suc a" by auto
  have u: "[a ..< n] = a # [Suc a ..< n]" using an by (simp add: upt_rec)
  show ?case
  proof (cases "P a")
    case True
    then show ?thesis using an by (auto simp: u)
  next
    case False
    have "(\<forall>j. Suc a \<le> j \<and> j < k \<longrightarrow> \<not> P j) \<longleftrightarrow> (\<forall>j. a \<le> j \<and> j < k \<longrightarrow> \<not> P j)"
      using False by (metis Suc_leI le_neq_implies_less Suc_leD)
    moreover have "Suc a \<le> k \<and> P k \<longleftrightarrow> a \<le> k \<and> P k"
      using False by (metis Suc_leI le_neq_implies_less Suc_leD)
    ultimately show ?thesis using Suc(1) [OF d] False by (auto simp: u)
  qed
qed

lemma find_rev_upt_None:
  "List.find P (rev [0 ..< n]) = None \<longleftrightarrow> (\<forall>j < n. \<not> P j)"
  by (auto simp: find_None_iff)

lemma find_rev_upt_Some:
  "List.find P (rev [0 ..< n]) = Some k \<longleftrightarrow> k < n \<and> P k \<and> (\<forall>j. k < j \<and> j < n \<longrightarrow> \<not> P j)"
proof (induction n)
  case 0
  show ?case by simp
next
  case (Suc n)
  show ?case
  proof (cases "P n")
    case True
    then show ?thesis by (auto simp: less_Suc_eq)
  next
    case False
    have "(\<forall>j. k < j \<and> j < Suc n \<longrightarrow> \<not> P j) \<longleftrightarrow> (\<forall>j. k < j \<and> j < n \<longrightarrow> \<not> P j)"
      using False by (auto simp: less_Suc_eq)
    moreover have "k < Suc n \<and> P k \<longleftrightarrow> k < n \<and> P k"
      using False by (auto simp: less_Suc_eq)
    ultimately show ?thesis using Suc False by auto
  qed
qed

lemma occurs_at_single: "occurs_at [c] s k \<longleftrightarrow> k < length s \<and> s ! k = c"
proof (cases "k < length s")
  case True
  then have "drop k s = s ! k # drop (Suc k) s" by (simp add: Cons_nth_drop_Suc)
  with True show ?thesis by (auto simp: occurs_at_def)
next
  case False
  then show ?thesis by (simp add: occurs_at_def)
qed

lemma occurs_at_hd: "occurs_at (c # cs) s k \<Longrightarrow> k < length s \<and> s ! k = c"
proof -
  assume a: "occurs_at (c # cs) s k"
  then have k: "k < length s" by (simp add: occurs_at_def)
  then have "drop k s = s ! k # drop (Suc k) s" by (simp add: Cons_nth_drop_Suc)
  with a k show ?thesis by (simp add: occurs_at_def)
qed

lemma occurs_at_Cons:
  "occurs_at (x # xs) t i \<longleftrightarrow> i < length t \<and> t ! i = x \<and> occurs_at xs t (Suc i)"
proof (cases "i < length t")
  case True
  then have "drop i t = t ! i # drop (Suc i) t" by (simp add: Cons_nth_drop_Suc)
  with True show ?thesis by (auto simp: occurs_at_def)
next
  case False
  then show ?thesis by (simp add: occurs_at_def)
qed

lemma occurs_at_slice:
  assumes "ls \<le> q" "q + length sub \<le> e" "e \<le> length s" "occurs_at sub s q"
  shows "occurs_at sub (take (e - ls) (drop ls s)) (q - ls)"
proof -
  have "drop (q - ls) (take (e - ls) (drop ls s)) = take (e - q) (drop q s)"
    using assms(1,2) by (simp add: drop_take)
  moreover have "take (length sub) (take (e - q) (drop q s)) = take (length sub) (drop q s)"
    using assms(2) by (simp add: min_def)
  ultimately show ?thesis using assms by (simp add: occurs_at_def)
qed


lemma py_find_cases:
  obtains (none) "py_find s sub (int a) = - 1" "\<And>j. a \<le> j \<Longrightarrow> j \<le> length s \<Longrightarrow> \<not> occurs_at sub s j"
  | (some) k where "py_find s sub (int a) = int k" "a \<le> k" "occurs_at sub s k"
      "\<And>j. a \<le> j \<Longrightarrow> j < k \<Longrightarrow> \<not> occurs_at sub s j"
proof (cases "List.find (occurs_at sub s) [a ..< Suc (length s)]")
  case None
  then have "\<And>j. a \<le> j \<Longrightarrow> j \<le> length s \<Longrightarrow> \<not> occurs_at sub s j"
    by (simp add: find_upt_None del: upt_Suc)
  moreover have "py_find s sub (int a) = - 1" using None by (simp add: py_find_def del: upt_Suc)
  ultimately show ?thesis by (rule none [rotated])
next
  case (Some k)
  then have "a \<le> k" "occurs_at sub s k" "\<And>j. a \<le> j \<Longrightarrow> j < k \<Longrightarrow> \<not> occurs_at sub s j"
    by (simp_all add: find_upt_Some del: upt_Suc)
  moreover have "py_find s sub (int a) = int k" using Some by (simp add: py_find_def del: upt_Suc)
  ultimately show ?thesis using some by blast
qed

lemma py_rfind_cases:
  assumes "p \<le> length s"
  obtains (none) "py_rfind s sub p = - 1"
  | (some) k where "py_rfind s sub p = int k" "k + length sub \<le> p" "occurs_at sub s k"
      "\<And>j. k < j \<Longrightarrow> j + length sub \<le> p \<Longrightarrow> \<not> occurs_at sub s j"
proof (cases "List.find (\<lambda>k. k + length sub \<le> p \<and> occurs_at sub s k) (rev [0 ..< Suc p])")
  case None
  then have "py_rfind s sub p = - 1" using assms by (simp add: py_rfind_def min_def del: upt_Suc)
  then show ?thesis by (rule none)
next
  case (Some k)
  then have k: "k + length sub \<le> p" "occurs_at sub s k"
      "\<And>j. k < j \<Longrightarrow> j + length sub \<le> p \<Longrightarrow> \<not> occurs_at sub s j"
    by (auto simp: find_rev_upt_Some simp del: upt_Suc)
  have "py_rfind s sub p = int k" using Some assms by (simp add: py_rfind_def min_def del: upt_Suc)
  then show ?thesis using k some by blast
qed

lemma py_rfind_greatest:
  assumes "p \<le> length s" "k + length sub \<le> p" "occurs_at sub s k"
    and "\<And>j. k < j \<Longrightarrow> j + length sub \<le> p \<Longrightarrow> \<not> occurs_at sub s j"
  shows "py_rfind s sub p = int k"
proof -
  have "List.find (\<lambda>k. k + length sub \<le> p \<and> occurs_at sub s k) (rev [0 ..< Suc p]) = Some k"
    using assms(2-4) by (auto simp: find_rev_upt_Some simp del: upt_Suc)
  then show ?thesis using assms(1) by (simp add: py_rfind_def min_def del: upt_Suc)
qed

lemma py_in_iff: "py_in sub s \<longleftrightarrow> (\<exists>k \<le> length s. occurs_at sub s k)"
  by (auto simp: py_in_def list_ex_iff less_Suc_eq_le simp del: upt_Suc)

text \<open>The slice that \<open>_is_in_comment\<close> takes as the line: it starts at the line start and
  reaches at least to the position.\<close>

lemma line_slice:
  assumes "p < length s" "ls \<le> p"
  obtains e where "py_slice s (int ls) (py_find s [newline] (int p)) = take (e - ls) (drop ls s)"
    "p \<le> e" "e \<le> length s"
proof (cases rule: py_find_cases [of s "[newline]" p])
  case none
  have "nat (max 0 (int (length s) - 1)) = length s - 1" using assms by simp
  then have "py_slice s (int ls) (- 1) = take ((length s - 1) - ls) (drop ls s)"
    using assms by (simp add: py_slice_def py_norm_def Let_def)
  moreover have "p \<le> length s - 1" "length s - 1 \<le> length s" using assms by simp_all
  ultimately show ?thesis using none(1) that by metis
next
  case (some k)
  from some(3) have "k < length s" by (simp add: occurs_at_single)
  then have "py_slice s (int ls) (int k) = take (k - ls) (drop ls s)"
    using assms by (simp add: py_slice_def py_norm_def Let_def)
  then show ?thesis using some(1,2) \<open>k < length s\<close> that by (metis less_imp_le_nat)
qed


text \<open>
  The specification's two kinds of comment, for a position \<open>p\<close> of the text: a \<open>--\<close>
  that ends at or before \<open>p\<close> with no newline between it and \<open>p\<close>; and a \<open>/*\<close> that ends
  at or before \<open>p\<close>, is the last such, and has no \<open>*/\<close> between its end and \<open>p\<close>.
\<close>

definition after_dashes :: "string \<Rightarrow> nat \<Rightarrow> bool" where
  "after_dashes text p =
     list_ex (\<lambda>q. q + 2 \<le> p \<and> occurs_at ''--'' text q \<and>
                  newline \<notin> set (take (p - q) (drop q text))) [0 ..< p]"

definition in_open_block :: "string \<Rightarrow> nat \<Rightarrow> bool" where
  "in_open_block text p =
     list_ex (\<lambda>k. k + 2 \<le> p \<and> occurs_at ''/*'' text k \<and>
                  list_all (\<lambda>j. \<not> (j + 2 \<le> p \<and> occurs_at ''/*'' text j)) [Suc k ..< p] \<and>
                  list_all (\<lambda>e. \<not> occurs_at ''*/'' text e) [k + 2 ..< p]) [0 ..< p]"

lemma after_dashes_in_comment:
  assumes p: "p < length s" and d: "after_dashes s p"
  shows "is_in_comment s p"
proof -
  from d obtain q where q: "q + 2 \<le> p" "occurs_at ''--'' s q"
      "newline \<notin> set (take (p - q) (drop q s))"
    by (auto simp: after_dashes_def list_ex_iff)
  have nonl: "\<not> occurs_at [newline] s k" if "q \<le> k" "k < p" for k
  proof
    assume "occurs_at [newline] s k"
    then have "s ! k = newline" by (simp add: occurs_at_single)
    moreover have "take (p - q) (drop q s) ! (k - q) = s ! k" using that p by simp
    moreover have "k - q < length (take (p - q) (drop q s))" using that p by simp
    ultimately show False using q(3) nth_mem by metis
  qed
  have "\<exists>ls. py_rfind s [newline] p + 1 = int ls \<and> ls \<le> q"
  proof (rule py_rfind_cases [OF less_imp_le [OF p], of "[newline]"])
    assume "py_rfind s [newline] p = - 1"
    then have "py_rfind s [newline] p + 1 = int 0" by simp
    then show ?thesis by blast
  next
    fix k
    assume k: "py_rfind s [newline] p = int k" "k + length [newline] \<le> p"
      "occurs_at [newline] s k"
    then have "k < p" by simp
    with k(3) nonl [of k] have "k < q" by (meson not_le_imp_less)
    moreover have "py_rfind s [newline] p + 1 = int (Suc k)" using k(1) by simp
    ultimately show ?thesis by (metis Suc_leI)
  qed
  then obtain ls where ls: "py_rfind s [newline] p + 1 = int ls" "ls \<le> q" by blast
  have lsp: "ls \<le> p" using ls(2) q(1) by simp
  obtain e where e: "py_slice s (int ls) (py_find s [newline] (int p)) = take (e - ls) (drop ls s)"
      "p \<le> e" "e \<le> length s"
    using line_slice [OF p lsp] by blast
  define line where "line = take (e - ls) (drop ls s)"
  have occ: "occurs_at ''--'' line (q - ls)"
    unfolding line_def using ls(2) q(1,2) e(2,3) by (intro occurs_at_slice) simp_all
  then have "q - ls \<le> length line" by (simp add: occurs_at_def)
  with occ have inl: "py_in ''--'' line" by (auto simp: py_in_iff)
  have "py_find line ''--'' 0 < int p - int ls"
  proof (cases rule: py_find_cases [of line "''--''" 0])
    case none
    then show ?thesis using q(1) ls(2) by simp
  next
    case (some k)
    have "k \<le> q - ls" using some(4) [of "q - ls"] occ by (meson le0 not_le_imp_less)
    then show ?thesis using some(1) q(1) ls(2) by simp
  qed
  then show ?thesis
    using inl ls(1) e(1) by (simp add: is_in_comment_def Let_def line_def)
qed

text \<open>The check of the block comment looks for \<open>*/\<close> from the first character of the
  opener on, so it agrees with the specification where no opener is followed by a slash
  at once.\<close>

lemma in_open_block_in_comment:
  assumes p: "p < length s" and star: "s ! p \<noteq> CHR ''*''" and b: "in_open_block s p"
    and nov: "\<not> py_in ''/*/'' s"
  shows "is_in_comment s p"
proof -
  from b obtain k where k: "k + 2 \<le> p" "occurs_at ''/*'' s k"
      "\<And>j. k < j \<Longrightarrow> j + 2 \<le> p \<Longrightarrow> \<not> occurs_at ''/*'' s j"
      "\<And>e. k + 2 \<le> e \<Longrightarrow> e < p \<Longrightarrow> \<not> occurs_at ''*/'' s e"
    by (auto simp: in_open_block_def list_ex_iff list_all_iff)
  have start: "py_rfind s ''/*'' p = int k"
    using p k(1-3) by (intro py_rfind_greatest) simp_all
  have kl: "k \<le> length s" using k(1) p by simp
  have "py_find s ''*/'' (int k) = - 1 \<or> py_find s ''*/'' (int k) > int p"
  proof (cases rule: py_find_cases [of s "''*/''" k])
    case none
    then show ?thesis by simp
  next
    case (some e)
    have "e \<noteq> k"
      using occurs_at_hd [of "CHR ''*''" "''/''" s e] occurs_at_hd [of "CHR ''/''" "''*''" s k]
        some(3) k(2) by auto
    moreover have "e \<noteq> Suc k"
    proof
      assume "e = Suc k"
      with some(3) k(2) have "occurs_at ''/*/'' s k" by (simp add: occurs_at_Cons)
      with kl nov show False by (auto simp: py_in_iff)
    qed
    ultimately have "k + 2 \<le> e" using some(2) by simp
    then have "\<not> e < p" using k(4) [of e] some(3) by blast
    moreover have "e \<noteq> p" using occurs_at_hd [of "CHR ''*''" "''/''" s e] some(3) star by auto
    ultimately show ?thesis using some(1) by simp
  qed
  then show ?thesis using start by (auto simp: is_in_comment_def Let_def)
qed

subsection \<open>Where a match of a rule can start\<close>

definition starts_with :: "(char \<Rightarrow> bool) \<Rightarrow> regex \<Rightarrow> bool" where
  "starts_with P r = (\<forall>s i. ends r s i \<noteq> [] \<longrightarrow> i < length s \<and> P (s ! i))"

lemma starts_with_Atom: "(\<And>c. atom_ok a c \<Longrightarrow> P c) \<Longrightarrow> starts_with P (Atom a)"
  by (simp add: starts_with_def)

lemma starts_with_Seq: "starts_with P r1 \<Longrightarrow> starts_with P (Seq r1 r2)"
proof -
  assume a: "starts_with P r1"
  have "ends r1 s i \<noteq> []" if "ends (Seq r1 r2) s i \<noteq> []" for s i
    using that by auto
  with a show ?thesis unfolding starts_with_def by blast
qed

lemma starts_with_WordB: "starts_with P r \<Longrightarrow> starts_with P (Seq WordB r)"
  by (auto simp: starts_with_def split: if_splits)

lemma starts_with_Alt: "starts_with P r1 \<Longrightarrow> starts_with P r2 \<Longrightarrow> starts_with P (Alt r1 r2)"
  by (auto simp: starts_with_def)

lemma code_char_of: "n < 256 \<Longrightarrow> code (char_of n) = n"
  by (simp add: code_def)

lemma ascii_lower_star: "ascii_lower c = CHR ''*'' \<longleftrightarrow> c = CHR ''*''"
proof
  assume a: "ascii_lower c = CHR ''*''"
  show "c = CHR ''*''"
  proof (rule ccontr)
    assume n: "c \<noteq> CHR ''*''"
    with a have r: "65 \<le> code c" "code c \<le> 90" "char_of (code c + 32) = CHR ''*''"
      by (auto simp: ascii_lower_def Let_def split: if_splits)
    then have "code (char_of (code c + 32)) = code c + 32" by (intro code_char_of) simp
    with r(3) have "code c + 32 = code (CHR ''*'')" by simp
    then show False using r(1) by (simp add: code_def)
  qed
next
  assume "c = CHR ''*''"
  then show "ascii_lower c = CHR ''*''" by (simp add: ascii_lower_def code_def)
qed

lemma starts_with_LitI:
  "x \<noteq> CHR ''*'' \<Longrightarrow> starts_with (\<lambda>c. c \<noteq> CHR ''*'') (Atom (LitI x))"
proof (rule starts_with_Atom)
  fix c assume "x \<noteq> CHR ''*''" "atom_ok (LitI x) c"
  then have "ascii_lower c \<noteq> CHR ''*''" by (simp add: ascii_lower_star)
  then show "c \<noteq> CHR ''*''" by (simp add: ascii_lower_star)
qed

lemmas starts_with_intros =
  starts_with_WordB starts_with_Seq starts_with_Alt starts_with_LitI

lemma patterns_start:
  assumes "pr \<in> set patterns"
  shows "starts_with (\<lambda>c. c \<noteq> CHR ''*'') (pattern (snd pr))"
proof -
  have "starts_with (\<lambda>c. c \<noteq> CHR ''*'') select_star"
    unfolding select_star_def word_def by (simp, intro starts_with_intros, simp)
  moreover have "starts_with (\<lambda>c. c \<noteq> CHR ''*'') missing_where_large_table"
    unfolding missing_where_large_table_def word_def by (simp, intro starts_with_intros, simp)
  moreover have "starts_with (\<lambda>c. c \<noteq> CHR ''*'') unnecessary_distinct"
    unfolding unnecessary_distinct_def word_def by (simp, intro starts_with_intros, simp)
  moreover have "starts_with (\<lambda>c. c \<noteq> CHR ''*'') order_without_limit"
    unfolding order_without_limit_def word_def by (simp, intro starts_with_intros, simp)
  moreover have "starts_with (\<lambda>c. c \<noteq> CHR ''*'') union_instead_union_all"
    unfolding union_instead_union_all_def word_def by (simp, intro starts_with_intros, simp)
  moreover have "starts_with (\<lambda>c. c \<noteq> CHR ''*'') create_drop_table"
    unfolding create_drop_table_def word_def by (simp, intro starts_with_intros, simp_all)
  moreover have "starts_with (\<lambda>c. c \<noteq> CHR ''*'') create_function_procedure"
    unfolding create_function_procedure_def word_def by (simp, intro starts_with_intros, simp)
  moreover have "starts_with (\<lambda>c. c \<noteq> CHR ''*'') varchar_without_size"
    unfolding varchar_without_size_def word_def by (simp, intro starts_with_intros, simp)
  moreover have "starts_with (\<lambda>c. c \<noteq> CHR ''*'') nested_subqueries"
    unfolding nested_subqueries_def word_def by (simp, intro starts_with_intros, simp)
  moreover have "starts_with (\<lambda>c. c \<noteq> CHR ''*'') cursor_usage"
    unfolding cursor_usage_def word_def by (simp, intro starts_with_intros, simp_all)
  moreover have "starts_with (\<lambda>c. c \<noteq> CHR ''*'') multiple_single_inserts"
    unfolding multiple_single_inserts_def word_def by (simp, intro starts_with_intros, simp)
  ultimately show ?thesis using assms by (auto simp: patterns_def)
qed


lemma match_at_in: "match_at r s i adv = Some e \<Longrightarrow> e \<in> set (ends r s i)"
proof -
  assume "match_at r s i adv = Some e"
  then obtain es where "filter (\<lambda>j. \<not> (adv \<and> j = i)) (ends r s i) = e # es"
    by (auto simp: match_at_def split: list.splits)
  then have "e \<in> set (filter (\<lambda>j. \<not> (adv \<and> j = i)) (ends r s i))"
    by (metis list.set_intros(1))
  then show ?thesis by simp
qed

lemma finditer_from_ends:
  "m \<in> set (finditer_from r s i adv) \<Longrightarrow> snd m \<in> set (ends r s (fst m))"
proof (induction r s i adv rule: finditer_from.induct)
  case (1 r s i adv)
  show ?case
  proof (cases "length s < i")
    case True
    with 1(3) show ?thesis by simp
  next
    case False
    show ?thesis
    proof (cases "match_at r s i adv")
      case None
      with False 1(3) have "m \<in> set (finditer_from r s (Suc i) False)" by simp
      from 1(1) [OF False None this] show ?thesis .
    next
      case (Some e)
      with False 1(3) have "m = (i, e) \<or> m \<in> set (finditer_from r s e (e = i))" by simp
      then show ?thesis
      proof
        assume "m = (i, e)" with match_at_in [OF Some] show ?thesis by simp
      next
        assume "m \<in> set (finditer_from r s e (e = i))"
        from 1(2) [OF False Some this] show ?thesis .
      qed
    qed
  qed
qed

lemma finditer_ends: "m \<in> set (finditer r s) \<Longrightarrow> ends r s (fst m) \<noteq> []"
  using finditer_from_ends [of m r s 0 False] by (auto simp: finditer_def)

text \<open>
  A match of a rule of the catalog that starts after a \<open>--\<close> of its own line, or after a
  \<open>/*\<close> that no \<open>*/\<close> closes before the match, is taken to be in a comment and the scan
  adds no finding for it, in a text where no \<open>/*\<close> is followed by a slash at once.
\<close>

lemma comments_suppress_matches:
  assumes "pr \<in> set patterns"
    and "m \<in> set (finditer (pattern (snd pr)) content)"
    and "after_dashes content (fst m) \<or>
         (in_open_block content (fst m) \<and> \<not> py_in ''/*/'' content)"
  shows "is_in_comment content (fst m) \<and> scan_match path content pr m st = st"
proof -
  from finditer_ends [OF assms(2)] patterns_start [OF assms(1)]
  have p: "fst m < length content" "content ! fst m \<noteq> CHR ''*''"
    by (simp_all add: starts_with_def)
  from assms(3) have "is_in_comment content (fst m)"
    using after_dashes_in_comment [OF p(1)] in_open_block_in_comment [OF p] by blast
  then show ?thesis by (simp add: scan_match_def)
qed

section \<open>Files that cannot be read\<close>

text \<open>The findings that the scan of one file adds: none for a file that cannot be read.\<close>

definition findings_of :: "world \<Rightarrow> string \<Rightarrow> SQLIssue list" where
  "findings_of w p =
     (case read_text w p of
        Inl e \<Rightarrow> []
      | Inr content \<Rightarrow> issues (fold (scan_pattern p content) patterns init))"

lemma fold_scan_pattern_issues:
  "issues (fold (scan_pattern p c) prs st) =
   issues st @ concat (map (\<lambda>pr. map (\<lambda>m. make_issue p c pr (fst m))
       (filter (\<lambda>m. \<not> is_in_comment c (fst m)) (finditer (pattern (snd pr)) c))) prs)"
  by (induction prs arbitrary: st) (simp_all add: scan_pattern_issues)

lemma console_scan_match: "console (scan_match p c pr m st) = console st"
  by (simp add: scan_match_def)

lemma files_scanned_scan_match:
  "files_scanned (stats (scan_match p c pr m st)) = files_scanned (stats st)"
  by (cases "rule_severity (snd pr)") (simp_all add: scan_match_def)

lemma scan_pattern_keeps:
  "console (scan_pattern p c pr st) = console st \<and>
   files_scanned (stats (scan_pattern p c pr st)) = files_scanned (stats st)"
proof -
  define P where "P = (\<lambda>s :: SQLCostOptimizer. console s = console st \<and> files_scanned (stats s) = files_scanned (stats st))"
  have "P (fold (scan_match p c pr) (finditer (pattern (snd pr)) c) st)"
    by (rule fold_preserves) (simp_all add: P_def console_scan_match files_scanned_scan_match)
  then show ?thesis by (simp add: P_def scan_pattern_def)
qed


lemma scan_sql_file_effect:
  "issues (scan_sql_file w p st) = issues st @ findings_of w p \<and>
   files_scanned (stats (scan_sql_file w p st)) = files_scanned (stats st) + 1 \<and>
   console (scan_sql_file w p st) =
     console st @ (case files w p of Inl e \<Rightarrow> [ErrorReading p e] | Inr c \<Rightarrow> [])"
proof (cases "files w p")
  case (Inl e)
  then show ?thesis by (simp add: scan_sql_file_def findings_of_def read_text_def)
next
  case (Inr raw)
  define c where "c = universal_newlines raw"
  let ?st1 = "st\<lparr>stats := (stats st)\<lparr>files_scanned := files_scanned (stats st) + 1\<rparr>\<rparr>"
  define P where "P = (\<lambda>s :: SQLCostOptimizer. console s = console st \<and>
      files_scanned (stats s) = files_scanned (stats st) + 1)"
  have "P (fold (scan_pattern p c) patterns ?st1)"
    by (rule fold_preserves) (simp_all add: P_def scan_pattern_keeps)
  moreover have "issues (fold (scan_pattern p c) patterns ?st1) =
      issues st @ issues (fold (scan_pattern p c) patterns init)"
    by (simp add: fold_scan_pattern_issues init_def)
  ultimately show ?thesis
    using Inr by (simp add: scan_sql_file_def findings_of_def P_def read_text_def c_def)
qed

lemma fold_scan_sql_file_effect:
  "issues (fold (scan_sql_file w) ps st) = issues st @ concat (map (findings_of w) ps) \<and>
   files_scanned (stats (fold (scan_sql_file w) ps st)) = files_scanned (stats st) + int (length ps) \<and>
   set (console st) \<subseteq> set (console (fold (scan_sql_file w) ps st)) \<and>
   (\<forall>p \<in> set ps. \<forall>e. files w p = Inl e \<longrightarrow>
      ErrorReading p e \<in> set (console (fold (scan_sql_file w) ps st)))"
proof (induction ps arbitrary: st)
  case Nil
  show ?case by simp
next
  case (Cons p ps)
  let ?s1 = "scan_sql_file w p st"
  note e = scan_sql_file_effect [of w p st]
  note ih = Cons.IH [of ?s1]
  have sub: "set (console ?s1) \<subseteq> set (console (fold (scan_sql_file w) ps ?s1))"
    using ih by blast
  have "ErrorReading p e \<in> set (console (fold (scan_sql_file w) ps ?s1))" if "files w p = Inl e" for e
  proof -
    have "ErrorReading p e \<in> set (console ?s1)" using e that by simp
    with sub show ?thesis by blast
  qed
  moreover have "set (console st) \<subseteq> set (console ?s1)" using e by auto
  ultimately show ?case using e ih sub by auto
qed

definition two_files :: world where
  "two_files =
     \<lparr>path_exists = (\<lambda>p. p \<in> set [''etl'', ''etl/a.sql'', ''etl/b.sql'']),
      rglob_sql = (\<lambda>p. if p = ''etl'' then [''etl/a.sql'', ''etl/b.sql''] else []),
      files = (\<lambda>p. if p = ''etl/a.sql'' then Inl ''Permission denied''
                    else if p = ''etl/b.sql'' then Inr ''DROP TABLE t;''
                    else Inl ''No such file or directory''),
      write_error = (\<lambda>p. None),
      linesep = [newline]\<rparr>"

text \<open>
  C8. In \<open>sql_cost_optimizer.py\<close>, a root directory that does not exist raises
  \<open>FileNotFoundError\<close> and nothing is scanned. Otherwise \<open>scan_directory\<close> returns, every file
  it found is counted as scanned, the findings are those of the files one after the other,
  a file that cannot be read adding none, and for each file that cannot be read the
  console holds the message that names the file and the error. In \<open>optimizer_2.py\<close> a
  file that cannot be read has no findings and leaves the object as it is, what it has
  printed included.
\<close>

theorem unreadable_files_are_reported_and_skipped:
  "(\<not> path_exists w d \<longrightarrow> scan_directory w d st = Inl (FileNotFoundError d)) \<and>
   (path_exists w d \<longrightarrow>
      (\<exists>st'. scan_directory w d st = Inr st' \<and>
         issues st' = issues st @ concat (map (findings_of w) (rglob_sql w d)) \<and>
         files_scanned (stats st') = files_scanned (stats st) + int (length (rglob_sql w d)) \<and>
         (\<forall>p \<in> set (rglob_sql w d). \<forall>e. files w p = Inl e \<longrightarrow>
            ErrorReading p e \<in> set (console st')))) \<and>
   (\<forall>p e. files w p = Inl e \<longrightarrow> check_file w p = [] \<and> scan_file2 w p st2 = st2)"
proof (intro conjI impI allI)
  assume "\<not> path_exists w d"
  then show "scan_directory w d st = Inl (FileNotFoundError d)" by (simp add: scan_directory_def)
next
  assume ex: "path_exists w d"
  let ?st1 = "st\<lparr>console := console st @ [FoundFiles (length (rglob_sql w d))]\<rparr>"
  let ?st2 = "fold (scan_sql_file w) (rglob_sql w d) ?st1"
  let ?st' = "?st2\<lparr>console := console ?st2 @ [ScanSummary (stats ?st2)]\<rparr>"
  have "scan_directory w d st = Inr ?st'" using ex by (simp add: scan_directory_def Let_def)
  moreover note fold_scan_sql_file_effect [of w "rglob_sql w d" ?st1]
  ultimately show "\<exists>st'. scan_directory w d st = Inr st' \<and>
         issues st' = issues st @ concat (map (findings_of w) (rglob_sql w d)) \<and>
         files_scanned (stats st') = files_scanned (stats st) + int (length (rglob_sql w d)) \<and>
         (\<forall>p \<in> set (rglob_sql w d). \<forall>e. files w p = Inl e \<longrightarrow>
            ErrorReading p e \<in> set (console st'))"
    by auto
next
  fix p e assume "files w p = Inl e"
  then show "check_file w p = []" "scan_file2 w p st2 = st2"
    by (simp_all add: check_file_def scan_file2_def read_text_def)
qed

theorem unreadable_files_are_reported_and_skipped_witness:
  "path_exists two_files ''etl'' \<and> files two_files ''etl/a.sql'' = Inl ''Permission denied'' \<and>
   (\<exists>st'. scan_directory two_files ''etl'' init = Inr st' \<and>
      ErrorReading ''etl/a.sql'' ''Permission denied'' \<in> set (console st') \<and>
      files_scanned (stats st') = 2 \<and>
      issues st' = findings_of two_files ''etl/b.sql'') \<and>
   \<not> path_exists two_files ''nowhere'' \<and>
   scan_directory two_files ''nowhere'' init = Inl (FileNotFoundError ''nowhere'') \<and>
   check_file two_files ''etl/a.sql'' = []"
proof -
  have ex: "path_exists two_files ''etl''" and nex: "\<not> path_exists two_files ''nowhere''"
    and a: "files two_files ''etl/a.sql'' = Inl ''Permission denied''"
    and g: "rglob_sql two_files ''etl'' = [''etl/a.sql'', ''etl/b.sql'']"
    by (simp_all add: two_files_def)
  note t = unreadable_files_are_reported_and_skipped [of two_files _ init init2]
  from t [of "''etl''"] ex obtain st' where s: "scan_directory two_files ''etl'' init = Inr st'"
      "issues st' = issues init @ concat (map (findings_of two_files) (rglob_sql two_files ''etl''))"
      "files_scanned (stats st') = files_scanned (stats init) + int (length (rglob_sql two_files ''etl''))"
      "\<forall>p \<in> set (rglob_sql two_files ''etl''). \<forall>e. files two_files p = Inl e \<longrightarrow>
            ErrorReading p e \<in> set (console st')"
    by blast
  from s(4) a g have "ErrorReading ''etl/a.sql'' ''Permission denied'' \<in> set (console st')" by simp
  moreover have "findings_of two_files ''etl/a.sql'' = []"
    using a by (simp add: findings_of_def read_text_def)
  then have "issues st' = findings_of two_files ''etl/b.sql''" using s(2) g by (simp add: init_def)
  moreover have "files_scanned (stats st') = 2" using s(3) g by (simp add: init_def)
  moreover from t [of "''nowhere''"] nex
  have "scan_directory two_files ''nowhere'' init = Inl (FileNotFoundError ''nowhere'')" by blast
  moreover from t [of "''etl''"] a have "check_file two_files ''etl/a.sql'' = []" by blast
  ultimately show ?thesis using ex nex a s(1) by blast
qed

section \<open>The union rule\<close>

text \<open>\<open>w\<close> occurs in \<open>s\<close> at index \<open>i\<close>, the case of the ASCII letters set aside.\<close>

definition occurs_ci :: "string \<Rightarrow> string \<Rightarrow> nat \<Rightarrow> bool" where
  "occurs_ci w s i = occurs_at (map ascii_lower w) (map ascii_lower s) i"

lemma occurs_at_nth:
  assumes "occurs_at sub t k" "m < length sub"
  shows "t ! (k + m) = sub ! m"
proof -
  from assms(1) have s: "take (length sub) (drop k t) = sub" and k: "k + length sub \<le> length t"
    by (simp_all add: occurs_at_def)
  have "sub ! m = take (length sub) (drop k t) ! m" by (simp only: s)
  also have "\<dots> = drop k t ! m" using assms(2) by simp
  also have "\<dots> = t ! (k + m)" using k by simp
  finally show ?thesis by simp
qed

lemma ends_Seq_Atom:
  "ends (Seq (Atom a) r) s i = (if i < length s \<and> atom_ok a (s ! i) then ends r s (Suc i) else [])"
  by (cases "i < length s \<and> atom_ok a (s ! i)") auto

lemma ends_word:
  "w \<noteq> [] \<Longrightarrow> ends (word w) s i = (if occurs_ci w s i then [i + length w] else [])"
proof (induction w arbitrary: i)
  case Nil
  then show ?case by simp
next
  case (Cons c w)
  show ?case
  proof (cases w)
    case Nil
    then show ?thesis
      by (auto simp: word_def occurs_ci_def occurs_at_single)
  next
    case (Cons c' w')
    then have w: "w \<noteq> []" by simp
    have "word (c # w) = Seq (Atom (LitI c)) (word w)" using Cons by (simp add: word_def)
    then have "ends (word (c # w)) s i =
        (if i < length s \<and> ascii_lower (s ! i) = ascii_lower c then ends (word w) s (Suc i) else [])"
      by (simp only: ends_Seq_Atom atom_ok.simps)
    also have "\<dots> = (if i < length s \<and> ascii_lower (s ! i) = ascii_lower c \<and> occurs_ci w s (Suc i)
        then [i + length (c # w)] else [])"
      using Cons.IH [OF w, of "Suc i"] by simp
    also have "\<dots> = (if occurs_ci (c # w) s i then [i + length (c # w)] else [])"
      by (auto simp: occurs_ci_def occurs_at_Cons)
    finally show ?thesis .
  qed
qed

lemma ends_star_sp:
  "set (ends (Star sp) s a) = {j. a \<le> j \<and> (\<forall>k. a \<le> k \<and> k < j \<longrightarrow> k < length s \<and> isspace (s ! k))}"
proof (induction "length s - a" arbitrary: a)
  case 0
  then have "ends sp s a = []" by simp
  then have "ends (Star sp) s a = [a]" by (simp add: ends.simps(6) [of sp s a])
  moreover have "{j. a \<le> j \<and> (\<forall>k. a \<le> k \<and> k < j \<longrightarrow> k < length s \<and> isspace (s ! k))} = {a}"
  proof -
    have "j = a" if "a \<le> j" "\<forall>k. a \<le> k \<and> k < j \<longrightarrow> k < length s \<and> isspace (s ! k)" for j
    proof (rule ccontr)
      assume "j \<noteq> a"
      with that(1) have "a < j" by simp
      with that(2) have "a < length s" by blast
      with 0 show False by simp
    qed
    then show ?thesis by auto
  qed
  ultimately show ?case by simp
next
  case (Suc d)
  then have a: "a < length s" and d: "d = length s - Suc a" by simp_all
  show ?case
  proof (cases "isspace (s ! a)")
    case True
    have "ends sp s a = [Suc a]" using a True by simp
    then have "ends (Star sp) s a = ends (Star sp) s (Suc a) @ [a]"
      using a by (simp add: ends.simps(6) [of sp s a])
    then have "set (ends (Star sp) s a) =
        insert a {j. Suc a \<le> j \<and> (\<forall>k. Suc a \<le> k \<and> k < j \<longrightarrow> k < length s \<and> isspace (s ! k))}"
      using Suc(1) [OF d] by simp
    also have "\<dots> = {j. a \<le> j \<and> (\<forall>k. a \<le> k \<and> k < j \<longrightarrow> k < length s \<and> isspace (s ! k))}"
    proof (intro set_eqI iffI)
      fix j assume "j \<in> insert a {j. Suc a \<le> j \<and> (\<forall>k. Suc a \<le> k \<and> k < j \<longrightarrow> k < length s \<and> isspace (s ! k))}"
      then show "j \<in> {j. a \<le> j \<and> (\<forall>k. a \<le> k \<and> k < j \<longrightarrow> k < length s \<and> isspace (s ! k))}"
        using a True by (auto simp: Suc_le_eq) (metis le_neq_implies_less)+
    next
      fix j assume "j \<in> {j. a \<le> j \<and> (\<forall>k. a \<le> k \<and> k < j \<longrightarrow> k < length s \<and> isspace (s ! k))}"
      then show "j \<in> insert a {j. Suc a \<le> j \<and> (\<forall>k. Suc a \<le> k \<and> k < j \<longrightarrow> k < length s \<and> isspace (s ! k))}"
        by (auto simp: Suc_le_eq)
    qed
    finally show ?thesis .
  next
    case False
    have "ends sp s a = []" using False by simp
    then have "ends (Star sp) s a = [a]" by (simp add: ends.simps(6) [of sp s a])
    moreover have "{j. a \<le> j \<and> (\<forall>k. a \<le> k \<and> k < j \<longrightarrow> k < length s \<and> isspace (s ! k))} = {a}"
    proof -
      have "j = a" if "a \<le> j" "\<forall>k. a \<le> k \<and> k < j \<longrightarrow> k < length s \<and> isspace (s ! k)" for j
      proof (rule ccontr)
        assume "j \<noteq> a"
        with that(1) have "a < j" by simp
        with that(2) have "isspace (s ! a)" by blast
        with False show False by simp
      qed
      then show ?thesis by auto
    qed
    ultimately show ?thesis by simp
  qed
qed

lemma ends_plus_sp:
  "set (ends (Plus sp) s a) =
     {j. a < j \<and> (\<forall>k. a \<le> k \<and> k < j \<longrightarrow> k < length s \<and> isspace (s ! k))}"
proof -
  have "ends (Plus sp) s a = (if a < length s \<and> isspace (s ! a) then ends (Star sp) s (Suc a) else [])"
    by (simp only: Plus_def ends_Seq_Atom atom_ok.simps)
  moreover have "{j. Suc a \<le> j \<and> (\<forall>k. Suc a \<le> k \<and> k < j \<longrightarrow> k < length s \<and> isspace (s ! k))} =
      {j. a < j \<and> (\<forall>k. a \<le> k \<and> k < j \<longrightarrow> k < length s \<and> isspace (s ! k))}"
    if "a < length s" "isspace (s ! a)"
    using that by (auto simp: Suc_le_eq) (metis le_neq_implies_less)+
  moreover have "{j. a < j \<and> (\<forall>k. a \<le> k \<and> k < j \<longrightarrow> k < length s \<and> isspace (s ! k))} = {}"
    if "\<not> (a < length s \<and> isspace (s ! a))"
    using that by auto
  ultimately show ?thesis
    by (cases "a < length s \<and> isspace (s ! a)") (simp_all add: ends_star_sp)
qed


lemma set_ends_Seq: "set (ends (Seq r1 r2) s i) = (\<Union>k \<in> set (ends r1 s i). set (ends r2 s k))"
  by simp

definition whole_word_all :: "string \<Rightarrow> nat \<Rightarrow> bool" where
  "whole_word_all s j = (occurs_ci ''ALL'' s j \<and> at_boundary s (j + 3))"

lemma ends_all_b: "ends (Seq (word ''ALL'') WordB) s j = [] \<longleftrightarrow> \<not> whole_word_all s j"
proof (cases "occurs_ci ''ALL'' s j")
  case True
  then have "ends (word ''ALL'') s j = [j + 3]" by (simp add: ends_word)
  then show ?thesis using True by (simp add: whole_word_all_def)
next
  case False
  then have "ends (word ''ALL'') s j = []" by (simp add: ends_word)
  then show ?thesis using False by (simp add: whole_word_all_def)
qed

lemma union_ends:
  "set (ends union_instead_union_all s i) =
     {j. at_boundary s i \<and> occurs_ci ''UNION'' s i \<and> i + 5 < j \<and>
         (\<forall>k. i + 5 \<le> k \<and> k < j \<longrightarrow> k < length s \<and> isspace (s ! k)) \<and>
         \<not> whole_word_all s j}"
proof -
  define look where "look = Look False (Seq (word ''ALL'') WordB)"
  define r1 where "r1 = Seq (Plus sp) look"
  define r2 where "r2 = Seq (word ''UNION'') r1"
  have u: "union_instead_union_all = Seq WordB r2"
    by (simp add: union_instead_union_all_def r2_def r1_def look_def)
  have l: "set (ends look s j) = (if whole_word_all s j then {} else {j})" for j
    using ends_all_b [of s j] by (cases "whole_word_all s j") (simp_all add: look_def)
  have p: "set (ends r1 s a) =
      {j. a < j \<and> (\<forall>k. a \<le> k \<and> k < j \<longrightarrow> k < length s \<and> isspace (s ! k)) \<and> \<not> whole_word_all s j}" for a
    unfolding r1_def by (simp only: set_ends_Seq ends_plus_sp l) auto
  have w: "set (ends r2 s a) =
      {j. occurs_ci ''UNION'' s a \<and> a + 5 < j \<and>
          (\<forall>k. a + 5 \<le> k \<and> k < j \<longrightarrow> k < length s \<and> isspace (s ! k)) \<and> \<not> whole_word_all s j}" for a
  proof (cases "occurs_ci ''UNION'' s a")
    case True
    then have "ends (word ''UNION'') s a = [a + 5]" by (simp add: ends_word)
    then have "set (ends r2 s a) = set (ends r1 s (a + 5))"
      unfolding r2_def by (simp only: set_ends_Seq) simp
    then show ?thesis using True by (simp only: p) auto
  next
    case False
    then have "ends (word ''UNION'') s a = []" by (simp add: ends_word)
    then have "set (ends r2 s a) = {}"
      unfolding r2_def by (simp only: set_ends_Seq) simp
    then show ?thesis using False by auto
  qed
  show ?thesis
  proof (cases "at_boundary s i")
    case True
    then have "ends WordB s i = [i]" by simp
    then have "set (ends union_instead_union_all s i) = set (ends r2 s i)"
      unfolding u by (simp only: set_ends_Seq) simp
    then show ?thesis using True by (simp only: w) auto
  next
    case False
    then have "ends WordB s i = []" by simp
    then have "set (ends union_instead_union_all s i) = {}"
      unfolding u by (simp only: set_ends_Seq) simp
    then show ?thesis using False by auto
  qed
qed

lemma lower_union: "map ascii_lower ''UNION'' = ''union''"
  by code_simp

lemma space_not_u: "isspace c \<Longrightarrow> ascii_lower c \<noteq> CHR ''u''"
proof
  assume a: "isspace c" "ascii_lower c = CHR ''u''"
  from a(1) have "\<not> (65 \<le> code c \<and> code c \<le> 90)" by (auto simp: isspace_def Let_def)
  then have "ascii_lower c = c" unfolding ascii_lower_def Let_def by (rule if_not_P)
  with a(2) have "code c = 117" by (simp add: code_def)
  with a(1) show False by (simp add: isspace_def Let_def)
qed

lemma union_no_overlap:
  assumes "occurs_ci ''UNION'' s i" "k < i" "e \<in> set (ends union_instead_union_all s k)"
  shows "e \<le> i"
proof (rule ccontr)
  assume "\<not> e \<le> i"
  then have ie: "i < e" by simp
  from assms(3) have k: "occurs_ci ''UNION'' s k"
      "\<forall>m. k + 5 \<le> m \<and> m < e \<longrightarrow> m < length s \<and> isspace (s ! m)"
    by (simp_all add: union_ends)
  from assms(1) have oi: "occurs_at ''union'' (map ascii_lower s) i"
    by (simp only: occurs_ci_def lower_union)
  from k(1) have ok: "occurs_at ''union'' (map ascii_lower s) k"
    by (simp only: occurs_ci_def lower_union)
  from occurs_at_nth [OF oi, of 0] have ui: "map ascii_lower s ! i = CHR ''u''" by simp
  from oi have il: "i < length s" by (simp add: occurs_at_def)
  show False
  proof (cases "i < k + 5")
    case True
    then obtain m where m: "i = k + m" "0 < m" "m < 5" using assms(2)
      by (metis add_diff_inverse_nat less_imp_add_positive nat_add_left_cancel_less not_less_iff_gr_or_eq)
    then have "m = 1 \<or> m = 2 \<or> m = 3 \<or> m = 4" by auto
    then have "''union'' ! m \<noteq> CHR ''u''" by auto
    moreover from occurs_at_nth [OF ok, of m] m have "map ascii_lower s ! i = ''union'' ! m" by simp
    ultimately show False using ui by simp
  next
    case False
    with k(2) ie have "isspace (s ! i)" by simp
    then have "ascii_lower (s ! i) \<noteq> CHR ''u''" by (rule space_not_u)
    with ui il show False by simp
  qed
qed

lemma finditer_from_covers:
  "ends r s i \<noteq> [] \<Longrightarrow> i \<le> length s \<Longrightarrow> (\<forall>k. k \<notin> set (ends r s k)) \<Longrightarrow>
   (\<forall>k e. k < i \<longrightarrow> e \<in> set (ends r s k) \<longrightarrow> e \<le> i) \<Longrightarrow> i0 \<le> i \<Longrightarrow>
   \<exists>e. (i, e) \<in> set (finditer_from r s i0 adv)"
proof (induction r s i0 adv rule: finditer_from.induct)
  case (1 r s i0 adv)
  note ne = 1(3) and il = 1(4) and nonempty = 1(5) and nov = 1(6) and le = 1(7)
  from le il have nl: "\<not> length s < i0" by simp
  show ?case
  proof (cases "match_at r s i0 adv")
    case None
    have "i0 \<noteq> i"
    proof
      assume "i0 = i"
      have "filter (\<lambda>j. \<not> (adv \<and> j = i)) (ends r s i) = ends r s i"
        using nonempty by (auto simp: filter_id_conv)
      with None \<open>i0 = i\<close> ne show False by (simp add: match_at_def split: list.splits)
    qed
    with le have "Suc i0 \<le> i" by simp
    from 1(1) [OF nl None ne il nonempty nov this]
    obtain e where "(i, e) \<in> set (finditer_from r s (Suc i0) False)" by blast
    then show ?thesis using nl None by (subst finditer_from.simps) auto
  next
    case (Some e)
    show ?thesis
    proof (cases "i0 = i")
      case True
      then show ?thesis using nl Some by (subst finditer_from.simps) auto
    next
      case False
      with le have "i0 < i" by simp
      with nov match_at_in [OF Some] have "e \<le> i" by blast
      from 1(2) [OF nl Some ne il nonempty nov this]
      obtain e' where "(i, e') \<in> set (finditer_from r s e (e = i0))" by blast
      then show ?thesis using nl Some by (subst finditer_from.simps) auto
    qed
  qed
qed


text \<open>
  The words of the specification about \<open>UNION\<close>. \<open>union_then_all s i\<close>: the \<open>UNION\<close> at
  position \<open>i\<close> is followed by one white-space character and then by the whole word
  \<open>ALL\<close>. \<open>bare_union s i j\<close>: a \<open>UNION\<close> starts a word at position \<open>i\<close> and is followed by
  white space up to position \<open>j\<close>, where the white space ends and \<open>ALL\<close> does not stand as
  a whole word.
\<close>

definition union_then_all :: "string \<Rightarrow> nat \<Rightarrow> bool" where
  "union_then_all s i = (i + 5 < length s \<and> isspace (s ! (i + 5)) \<and> whole_word_all s (i + 6))"

definition every_union_then_all :: "string \<Rightarrow> bool" where
  "every_union_then_all s =
     list_all (\<lambda>i. occurs_ci ''UNION'' s i \<longrightarrow> union_then_all s i) [0 ..< length s]"

definition bare_union :: "string \<Rightarrow> nat \<Rightarrow> nat \<Rightarrow> bool" where
  "bare_union s i j =
     (at_boundary s i \<and> occurs_ci ''UNION'' s i \<and> i + 5 < j \<and> j \<le> length s \<and>
      list_all (\<lambda>k. isspace (s ! k)) [i + 5 ..< j] \<and>
      (j < length s \<longrightarrow> \<not> isspace (s ! j)) \<and> \<not> whole_word_all s j)"

lemma rule_named_union:
  "fst (rule_named ''union_instead_union_all'') = ''union_instead_union_all''"
  "pattern (snd (rule_named ''union_instead_union_all'')) = union_instead_union_all"
  "rule_severity (snd (rule_named ''union_instead_union_all'')) = MEDIUM"
  by (simp_all add: rule_named_def patterns_def)

lemma lower_all: "map ascii_lower ''ALL'' = ''all''"
  by code_simp

lemma space_not_a: "isspace c \<Longrightarrow> ascii_lower c \<noteq> CHR ''a''"
proof
  assume a: "isspace c" "ascii_lower c = CHR ''a''"
  from a(1) have "\<not> (65 \<le> code c \<and> code c \<le> 90)" by (auto simp: isspace_def Let_def)
  then have "ascii_lower c = c" unfolding ascii_lower_def Let_def by (rule if_not_P)
  with a(2) have "code c = 97" by (simp add: code_def)
  with a(1) show False by (simp add: isspace_def Let_def)
qed

lemma union_then_all_no_match:
  assumes "every_union_then_all s"
  shows "ends union_instead_union_all s i = []"
proof (rule ccontr)
  assume "ends union_instead_union_all s i \<noteq> []"
  then obtain j where "j \<in> set (ends union_instead_union_all s i)"
    by (meson last_in_set)
  then have j: "occurs_ci ''UNION'' s i" "i + 5 < j"
      "\<forall>k. i + 5 \<le> k \<and> k < j \<longrightarrow> k < length s \<and> isspace (s ! k)" "\<not> whole_word_all s j"
    by (simp_all add: union_ends)
  from j(1) have "i < length s" by (simp add: occurs_ci_def occurs_at_def)
  with assms j(1) have u: "union_then_all s i"
    by (simp add: every_union_then_all_def list_all_iff)
  then have w: "whole_word_all s (i + 6)" by (simp add: union_then_all_def)
  then have oa: "occurs_at ''all'' (map ascii_lower s) (i + 6)"
    by (simp only: whole_word_all_def occurs_ci_def lower_all)
  then have l: "i + 6 < length s" by (simp add: occurs_at_def)
  from occurs_at_nth [OF oa, of 0] l have "ascii_lower (s ! (i + 6)) = CHR ''a''" by simp
  then have "\<not> isspace (s ! (i + 6))" using space_not_a by blast
  have "j = i + 6"
  proof (rule ccontr)
    assume "j \<noteq> i + 6"
    with j(2) have "i + 5 \<le> i + 6 \<and> i + 6 < j" by simp
    with j(3) have "isspace (s ! (i + 6))" by blast
    with \<open>\<not> isspace (s ! (i + 6))\<close> show False by simp
  qed
  with w j(4) show False by simp
qed

lemma finditer_no_ends:
  assumes "\<And>i. ends r s i = []"
  shows "finditer r s = []"
proof (rule ccontr)
  assume "finditer r s \<noteq> []"
  then obtain m where "m \<in> set (finditer r s)" by (meson last_in_set)
  from finditer_ends [OF this] assms show False by simp
qed

text \<open>
  When the union rule of \<open>sql_cost_optimizer.py\<close> fires. A text in which every \<open>UNION\<close> is
  followed by one white-space character and the whole word \<open>ALL\<close> gets no finding of the
  rule. A text with a \<open>UNION\<close> that starts a word outside comments and is followed by
  white space after which \<open>ALL\<close> does not stand as a whole word gets a finding of the rule
  with severity MEDIUM, at the line of that \<open>UNION\<close>.
\<close>

theorem union_rule_findings:
  "(every_union_then_all s \<longrightarrow>
      issues (scan_pattern p s (rule_named ''union_instead_union_all'') st) = issues st) \<and>
   (bare_union s i j \<and> \<not> is_in_comment s i \<longrightarrow>
      (\<exists>x \<in> set (issues (scan_pattern p s (rule_named ''union_instead_union_all'') st)).
         issue_type x = ''union_instead_union_all'' \<and> severity x = MEDIUM \<and>
         line_number x = line_num_of s i))"
proof (intro conjI impI)
  assume "every_union_then_all s"
  then have "finditer union_instead_union_all s = []"
    by (intro finditer_no_ends union_then_all_no_match)
  then show "issues (scan_pattern p s (rule_named ''union_instead_union_all'') st) = issues st"
    by (simp add: scan_pattern_issues rule_named_union)
next
  let ?pr = "rule_named ''union_instead_union_all''"
  assume a: "bare_union s i j \<and> \<not> is_in_comment s i"
  then have b: "at_boundary s i" "occurs_ci ''UNION'' s i" "i + 5 < j" "j \<le> length s"
      "\<forall>k. i + 5 \<le> k \<and> k < j \<longrightarrow> isspace (s ! k)" "\<not> whole_word_all s j"
    by (simp_all add: bare_union_def list_all_iff)
  then have "j \<in> set (ends union_instead_union_all s i)" by (simp add: union_ends)
  then have ne: "ends union_instead_union_all s i \<noteq> []" by auto
  have il: "i \<le> length s" using b(3,4) by simp
  have "\<forall>k. k \<notin> set (ends union_instead_union_all s k)" by (simp add: union_ends)
  moreover have "\<forall>k e. k < i \<longrightarrow> e \<in> set (ends union_instead_union_all s k) \<longrightarrow> e \<le> i"
    using union_no_overlap [OF b(2)] by blast
  ultimately obtain e where "(i, e) \<in> set (finditer_from union_instead_union_all s 0 False)"
    using finditer_from_covers [OF ne il, of 0 False] by blast
  then have "(i, e) \<in> set (filter (\<lambda>m. \<not> is_in_comment s (fst m))
      (finditer (pattern (snd ?pr)) s))"
    using a by (simp add: finditer_def rule_named_union)
  then have "make_issue p s ?pr (fst (i, e)) \<in> set (issues (scan_pattern p s ?pr st))"
    unfolding scan_pattern_issues by (simp add: image_iff) force
  moreover have "issue_type (make_issue p s ?pr i) = ''union_instead_union_all''"
    "severity (make_issue p s ?pr i) = MEDIUM" "line_number (make_issue p s ?pr i) = line_num_of s i"
    by (simp_all add: make_issue_def rule_named_union)
  ultimately show "\<exists>x \<in> set (issues (scan_pattern p s ?pr st)).
         issue_type x = ''union_instead_union_all'' \<and> severity x = MEDIUM \<and>
         line_number x = line_num_of s i"
    by auto
qed

theorem union_rule_findings_witness:
  "every_union_then_all ''a UNION ALL b'' \<and>
   issues (scan_pattern ''q.sql'' ''a UNION ALL b'' (rule_named ''union_instead_union_all'') init) = [] \<and>
   bare_union ''a\<newline>UNION b'' 2 8 \<and> \<not> is_in_comment ''a\<newline>UNION b'' 2 \<and>
   (\<exists>x \<in> set (issues (scan_pattern ''q.sql'' ''a\<newline>UNION b'' (rule_named ''union_instead_union_all'') init)).
      issue_type x = ''union_instead_union_all'' \<and> severity x = MEDIUM \<and> line_number x = 2)"
proof -
  have h1: "every_union_then_all ''a UNION ALL b''" by code_simp
  have h2: "bare_union ''a\<newline>UNION b'' 2 8 \<and> \<not> is_in_comment ''a\<newline>UNION b'' 2" by code_simp
  have n: "line_num_of ''a\<newline>UNION b'' 2 = 2" by code_simp
  from union_rule_findings [of "''a UNION ALL b''" "''q.sql''" init] h1
  have "issues (scan_pattern ''q.sql'' ''a UNION ALL b'' (rule_named ''union_instead_union_all'') init) = []"
    by (simp add: init_def)
  moreover from union_rule_findings [where s = "''a\<newline>UNION b''" and i = 2 and j = 8
      and p = "''q.sql''" and st = init] h2
  have "\<exists>x \<in> set (issues (scan_pattern ''q.sql'' ''a\<newline>UNION b'' (rule_named ''union_instead_union_all'') init)).
      issue_type x = ''union_instead_union_all'' \<and> severity x = MEDIUM \<and>
      line_number x = line_num_of ''a\<newline>UNION b'' 2"
    by blast
  ultimately show ?thesis using h1 h2 n by simp
qed

section \<open>The program at concrete files\<close>

text \<open>
  C1. The file \<open>etl/q.sql\<close> holds the one line \<open>DROP TABLE t;\<close>. After a run with
  \<open>--fix\<close> the backup holds the rewritten text, the same text as the fixed file, and the
  line as it was before the fix is in neither file on its own.
\<close>

theorem backup_holds_the_rewritten_text:
  "map_sum id (\<lambda>ws. (files (fst ws) ''etl/q.sql.backup.20240101_120000'', files (fst ws) ''etl/q.sql''))
     (scan_and_fix (\<lambda>p. ''20240101_120000'') (one_file ''etl/q.sql'' ''DROP TABLE t;\<newline>'') ''etl'') =
   Inr (Inr ''-- COST OPTIMIZATION FIX: Creating/dropping tables in ETL causes metadata overhead\<newline>-- Original line commented below, optimized version added\<newline>-- Cost Impact: Time Travel storage costs + performance degradation\<newline>-- ORIGINAL: DROP TABLE t;\<newline>'',
        Inr ''-- COST OPTIMIZATION FIX: Creating/dropping tables in ETL causes metadata overhead\<newline>-- Original line commented below, optimized version added\<newline>-- Cost Impact: Time Travel storage costs + performance degradation\<newline>-- ORIGINAL: DROP TABLE t;\<newline>'')"
  by code_simp

text \<open>
  C3. The text \<open>select * from t\<close> has \<open>select *\<close> followed by \<open>from\<close>, and the scan
  reports no wildcard selection for it: the pattern asks for a word boundary after the
  star, which a following space does not give.
\<close>

theorem select_star_before_a_space_is_missed:
  "finditer select_star ''select * from t'' = [] \<and>
   filter (\<lambda>x. issue_type x = ''select_star'')
     (issues (scan_sql_file (one_file ''etl/q.sql'' ''select * from t'') ''etl/q.sql'' init)) = []"
  by code_simp

text \<open>
  C6. The scan of the file that holds exactly \<open>SELECT * FROM customers;\<close> reports one
  finding, the missing \<open>WHERE\<close> on a large table, and no wildcard selection.
\<close>

theorem example_one_yields_one_finding:
  "map (\<lambda>x. (issue_type x, line_number x, severity x))
     (issues (scan_sql_file (one_file ''etl/q.sql'' ''SELECT * FROM customers;'') ''etl/q.sql'' init)) =
   [(''missing_where_large_table'', 1, HIGH)]"
  by code_simp

text \<open>
  The fixer of \<open>optimizer_2.py\<close> is another one. The first file below has one finding,
  on its second line; the rewrite changes the first line as well, a comment that no
  finding names, and the text of neither line is in the result. The second file is given
  to the fixer of \<open>sql_cost_optimizer.py\<close>; its lines end in carriage return and newline
  and its one finding is on the second line, and the first line is written back without
  its carriage return.
\<close>

theorem second_fixer_alters_unmatched_line:
  "map f_line (check_content ''--union b\<newline>union c'') = [2] \<and>
   fix_content ''--union b\<newline>union c'' = ''--UNION ALL b\<newline>UNION ALL c'' \<and>
   \<not> py_in ''--union b'' ''--UNION ALL b\<newline>UNION ALL c'' \<and>
   \<not> py_in ''union c'' ''--UNION ALL b\<newline>UNION ALL c'' \<and>
   map_sum id (\<lambda>ws. (map line_number (issues (snd ws)), files (fst ws) ''etl/q.sql''))
     (scan_and_fix (\<lambda>p. ''20240101_120000'')
        (one_file ''etl/q.sql'' (''a'' @ [CR, newline] @ ''DROP TABLE t;'' @ [CR, newline])) ''etl'') =
   Inr ([2], Inr ''a\<newline>-- COST OPTIMIZATION FIX: Creating/dropping tables in ETL causes metadata overhead\<newline>-- Original line commented below, optimized version added\<newline>-- Cost Impact: Time Travel storage costs + performance degradation\<newline>-- ORIGINAL: DROP TABLE t;\<newline>'')"
  by code_simp

text \<open>
  The scan of \<open>optimizer_2.py\<close> over a directory with a file that cannot be read and a
  file with a finding: the first file is passed over and what is printed is the count of
  the files alone.
\<close>

theorem second_scanner_is_silent:
  "files two_files ''etl/a.sql'' = Inl ''Permission denied'' \<and>
   check_file two_files ''etl/a.sql'' = [] \<and>
   printed (scan_files two_files ''etl'' init2) = [FoundSql 2] \<and>
   map fst (results (scan_files two_files ''etl'' init2)) = [''etl/b.sql'']"
  by code_simp

text \<open>
  C4. In the text \<open>/*/ DROP TABLE t\<close> the words \<open>DROP TABLE\<close> stand in a block comment
  that nothing closes. The check takes the \<open>*/\<close> that overlaps the opener for the end of
  the comment, and the scan reports the finding.
\<close>

theorem overlapping_opener_ends_the_comment:
  "in_open_block ''/*/ DROP TABLE t'' 4 \<and>
   finditer create_drop_table ''/*/ DROP TABLE t'' = [(4, 14)] \<and>
   \<not> is_in_comment ''/*/ DROP TABLE t'' 4 \<and>
   map (\<lambda>x. (issue_type x, line_number x))
     (issues (scan_sql_file (one_file ''etl/q.sql'' ''/*/ DROP TABLE t'') ''etl/q.sql'' init)) =
   [(''create_drop_table'', 1)]"
  by code_simp

text \<open>
  C5. In the text \<open>a UNION  ALL b\<close> the one \<open>UNION\<close> is followed by two blanks and the
  whole word \<open>ALL\<close>, and both scripts report a finding of the union rule for it: the
  pattern gives one blank back and the look-ahead then stands before a blank. In the text
  \<open>a UNION\<close> and in the two lines \<open>a UNION\<close>, \<open>b\<close> no \<open>ALL\<close> follows the \<open>UNION\<close>; the
  first script reports nothing for the first text and the second script nothing for the
  second, since the pattern asks for white space after \<open>UNION\<close> and the second script
  strips each line.
\<close>

theorem union_all_after_two_blanks_is_flagged:
  "filter (occurs_ci ''UNION'' ''a UNION  ALL b'') [0 ..< length ''a UNION  ALL b''] = [2] \<and>
   isspace (''a UNION  ALL b'' ! 7) \<and> isspace (''a UNION  ALL b'' ! 8) \<and>
   whole_word_all ''a UNION  ALL b'' 9 \<and>
   map (\<lambda>x. (issue_type x, line_number x, severity x))
     (issues (scan_sql_file (one_file ''etl/q.sql'' ''a UNION  ALL b'') ''etl/q.sql'' init)) =
   [(''union_instead_union_all'', 1, MEDIUM)] \<and>
   map (\<lambda>f. (f_type f, f_line f, f_severity f)) (check_content ''a UNION  ALL b'') =
   [(''union_without_all'', 1, MEDIUM)] \<and>
   issues (scan_sql_file (one_file ''etl/q.sql'' ''a UNION'') ''etl/q.sql'' init) = [] \<and>
   check_content ''a UNION\<newline>b'' = []"
  by code_simp

end
